theory Spec2Isabelle
  imports Complex_Main "HOL-Library.Char_ord" "HOL-Library.AList" "HOL-Library.List_Lexorder" "HOL-Library.Product_Lexorder"
begin

section \<open>Characters and whitespace\<close>

text \<open>
  The converter works on Python \<open>str\<close> values.  A character is modelled by the 8-bit type
  \<^typ>\<open>char\<close>, read as the code point of the same number, so \<^const>\<open>length\<close> counts what
  Python's \<open>len\<close> counts for text whose code points lie below 256.  The character classes
  below are the ones \<open>str.isspace\<close>, \<open>str.strip\<close> and the \<open>re\<close> classes \<open>\s\<close>, \<open>\d\<close>, \<open>\w\<close>
  have on that range.
\<close>

definition whitespace_chars :: string where
  "whitespace_chars =
     [CHR 0x09, CHR 0x0A, CHR 0x0B, CHR 0x0C, CHR 0x0D, CHR 0x1C, CHR 0x1D, CHR 0x1E,
      CHR 0x1F, CHR 0x20, CHR 0x85, CHR 0xA0]"

definition isspace :: "char \<Rightarrow> bool" where
  "isspace c = (c \<in> set whitespace_chars)"

definition lstrip :: "string \<Rightarrow> string" where
  "lstrip s = dropWhile isspace s"

definition rstrip :: "string \<Rightarrow> string" where
  "rstrip s = rev (dropWhile isspace (rev s))"

definition strip :: "string \<Rightarrow> string" where
  "strip s = rstrip (lstrip s)"

section \<open>Line wrapper: \<open>split_track_data\<close>\<close>

definition MAX_LINE_LENGTH_MMLE :: nat where
  "MAX_LINE_LENGTH_MMLE = 80"

definition safe_split_chars :: string where
  "safe_split_chars = ''abcdefgrABCDEFGR<>''"

text \<open>
  The inner \<open>while split_index > 0\<close> loop: it walks down from the start index and stops at
  the first index that is inside the text and holds a note, rest or octave character;
  it leaves 0 when there is none.
\<close>

fun find_split_index :: "string \<Rightarrow> nat \<Rightarrow> nat" where
  "find_split_index remaining_data 0 = 0"
| "find_split_index remaining_data (Suc n) =
     (if Suc n < length remaining_data \<and> remaining_data ! Suc n \<in> set safe_split_chars
      then Suc n
      else find_split_index remaining_data n)"

text \<open>The index after the fallback \<open>if split_index <= 0: split_index = max_length\<close>.\<close>

definition choose_split_index :: "string \<Rightarrow> nat \<Rightarrow> nat" where
  "choose_split_index remaining_data max_length =
     (if find_split_index remaining_data max_length = 0 then max_length
      else find_split_index remaining_data max_length)"

text \<open>
  The outer \<open>while remaining_data\<close> loop.  Nothing in its text bounds the number of
  iterations, so it is a partial function: \<open>None\<close> stands for a run that never returns.
\<close>

partial_function (option) split_loop ::
  "string \<Rightarrow> nat \<Rightarrow> string \<Rightarrow> string list \<Rightarrow> string list option" where
  "split_loop channel_id max_length remaining_data result_lines =
     (if remaining_data = [] then Some result_lines
      else if length remaining_data \<le> max_length
        then Some (result_lines @ [channel_id @ '' '' @ remaining_data])
      else split_loop channel_id max_length
             (strip (drop (choose_split_index remaining_data max_length) remaining_data))
             (result_lines @
                [channel_id @ '' '' @
                   take (choose_split_index remaining_data max_length) remaining_data]))"

declare split_loop.simps [code]

definition split_track_data :: "string \<Rightarrow> string \<Rightarrow> nat \<Rightarrow> string list option" where
  "split_track_data mml_data channel_id max_length =
     (if strip mml_data = [] then Some []
      else split_loop channel_id max_length (strip mml_data) [])"

section \<open>Regular-expression and string primitives\<close>

definition isdigit :: "char \<Rightarrow> bool" where
  "isdigit c = (c \<in> set ''0123456789'')"

text \<open>The class \<open>\w\<close> of a \<open>str\<close> pattern, on code points below 256.\<close>

definition isword :: "char \<Rightarrow> bool" where
  "isword c =
     ((48 \<le> (of_char c :: nat) \<and> (of_char c :: nat) \<le> 57) \<or>
      (65 \<le> (of_char c :: nat) \<and> (of_char c :: nat) \<le> 90) \<or>
      (of_char c :: nat) = 95 \<or>
      (97 \<le> (of_char c :: nat) \<and> (of_char c :: nat) \<le> 122) \<or>
      (of_char c :: nat) \<in> set [170, 178, 179, 181, 185, 186, 188, 189, 190] \<or>
      (192 \<le> (of_char c :: nat) \<and> (of_char c :: nat) \<le> 214) \<or>
      (216 \<le> (of_char c :: nat) \<and> (of_char c :: nat) \<le> 246) \<or>
      248 \<le> (of_char c :: nat))"

text \<open>\<open>s.startswith(p)\<close> and \<open>sub in s\<close>.\<close>

fun startswith :: "string \<Rightarrow> string \<Rightarrow> bool" where
  "startswith s [] = True"
| "startswith [] (p # ps) = False"
| "startswith (c # cs) (p # ps) = (c = p \<and> startswith cs ps)"

fun str_contains :: "string \<Rightarrow> string \<Rightarrow> bool" where
  "str_contains sub [] = (sub = [])"
| "str_contains sub (c # cs) = (startswith (c # cs) sub \<or> str_contains sub cs)"

text \<open>\<open>sep.join(xs)\<close>.\<close>

fun str_join :: "string \<Rightarrow> string list \<Rightarrow> string" where
  "str_join sep [] = []"
| "str_join sep [x] = x"
| "str_join sep (x # y # ys) = x @ sep @ str_join sep (y # ys)"

text \<open>
  \<open>re.sub(pattern, repl, s)\<close> for a pattern that matches no empty string: the text is
  scanned from the left; where the pattern matches, the match is replaced and scanning
  resumes behind it, elsewhere the character is kept.  A pattern is given by its matcher:
  from the character before the position (for \<open>\b\<close>) and the text at the position, the
  length of the match there, if any.
\<close>

function re_sub ::
  "(char option \<Rightarrow> string \<Rightarrow> nat option) \<Rightarrow> string \<Rightarrow> char option \<Rightarrow> string \<Rightarrow> string" where
  "re_sub matcher repl prev [] = []"
| "re_sub matcher repl prev (c # cs) =
     (case matcher prev (c # cs) of
        Some (Suc n) \<Rightarrow> repl @ re_sub matcher repl (Some ((c # cs) ! n)) (drop n cs)
      | _ \<Rightarrow> c # re_sub matcher repl (Some c) cs)"
  by pat_completeness auto
termination
  by (relation "measure (\<lambda>(matcher, repl, prev, s). length s)") auto

text \<open>
  \<open>re.search(pattern, s)\<close> for such a pattern: the leftmost position with a match,
  together with what the matcher returns there.
\<close>

fun re_search :: "(string \<Rightarrow> 'a option) \<Rightarrow> string \<Rightarrow> (nat \<times> 'a) option" where
  "re_search matcher [] = None"
| "re_search matcher (c # cs) =
     (case matcher (c # cs) of
        Some r \<Rightarrow> Some (0, r)
      | None \<Rightarrow> (case re_search matcher cs of Some (i, r) \<Rightarrow> Some (Suc i, r) | None \<Rightarrow> None))"

text \<open>
  \<open>int(digits)\<close> on a run of decimal digits (the interpreter's limit on the number of
  digits of a literal is not modelled).
\<close>

definition digit_value :: "char \<Rightarrow> int" where
  "digit_value c = int (of_char c) - 48"

definition int_of_digits :: "string \<Rightarrow> int" where
  "int_of_digits ds = foldl (\<lambda>n c. 10 * n + digit_value c) 0 ds"

text \<open>\<open>str(n)\<close> for an integer.\<close>

function str_nat :: "nat \<Rightarrow> string" where
  "str_nat n = (if n < 10 then [''0123456789'' ! n] else str_nat (n div 10) @ [''0123456789'' ! (n mod 10)])"
  by pat_completeness auto
termination
  by (relation "measure id") auto

declare str_nat.simps [simp del]

definition str_int :: "int \<Rightarrow> string" where
  "str_int i = (if i < 0 then CHR ''-'' # str_nat (nat (- i)) else str_nat (nat i))"

text \<open>
  \<open>s.upper()\<close> on the ASCII letters.  Of the code points below 256 only the ASCII letters
  have an upper case made of ASCII characters, so \<open>s.upper().startswith(kw)\<close> for an ASCII
  keyword is decided by the ASCII upper case of the first characters of \<open>s\<close>.
\<close>

definition ascii_upper :: "char \<Rightarrow> char" where
  "ascii_upper c =
     (case map_of (zip ''abcdefghijklmnopqrstuvwxyz'' ''ABCDEFGHIJKLMNOPQRSTUVWXYZ'') c of
        Some u \<Rightarrow> u | None \<Rightarrow> c)"

definition upper_startswith :: "string \<Rightarrow> string \<Rightarrow> bool" where
  "upper_startswith s kw = startswith (map ascii_upper (take (length kw) s)) kw"

section \<open>Command translator: \<open>process_mus_commands\<close>\<close>

text \<open>The matcher of \<open>D[-+]?\d+\<close>.\<close>

definition match_detune :: "char option \<Rightarrow> string \<Rightarrow> nat option" where
  "match_detune prev s =
     (case s of
        [] \<Rightarrow> None
      | c # r \<Rightarrow>
          if c \<noteq> CHR ''D'' then None
          else if r \<noteq> [] \<and> (hd r = CHR ''-'' \<or> hd r = CHR ''+'')
            then (if takeWhile isdigit (tl r) = [] then None
                  else Some (2 + length (takeWhile isdigit (tl r))))
          else (if takeWhile isdigit r = [] then None
                else Some (1 + length (takeWhile isdigit r))))"

text \<open>The matcher of \<open>p\d+\<close>.\<close>

definition match_pan :: "char option \<Rightarrow> string \<Rightarrow> nat option" where
  "match_pan prev s =
     (case s of
        [] \<Rightarrow> None
      | c # r \<Rightarrow>
          if c = CHR ''p'' \<and> takeWhile isdigit r \<noteq> []
          then Some (1 + length (takeWhile isdigit r)) else None)"

text \<open>
  The matcher of \<open>\bL\s+\<close>.  \<open>L\<close> is a word character, so the boundary \<open>\b\<close> before it
  holds at the start of the text and behind a character that is not a word character.
\<close>

definition match_loop :: "char option \<Rightarrow> string \<Rightarrow> nat option" where
  "match_loop prev s =
     (case s of
        [] \<Rightarrow> None
      | c # r \<Rightarrow>
          if c = CHR ''L'' \<and> (case prev of None \<Rightarrow> True | Some q \<Rightarrow> \<not> isword q)
             \<and> takeWhile isspace r \<noteq> []
          then Some (1 + length (takeWhile isspace r)) else None)"

text \<open>The matchers of a single literal character and of \<open>\s+\<close>.\<close>

definition match_char :: "char \<Rightarrow> char option \<Rightarrow> string \<Rightarrow> nat option" where
  "match_char x prev s = (case s of [] \<Rightarrow> None | c # r \<Rightarrow> if c = x then Some 1 else None)"

definition match_spaces :: "char option \<Rightarrow> string \<Rightarrow> nat option" where
  "match_spaces prev s =
     (if takeWhile isspace s = [] then None else Some (length (takeWhile isspace s)))"

text \<open>
  The six substitutions of the source, in its order.  The channel id, the verbosity flag,
  the PDX flag and the timebase are parameters the source takes and never reads.
\<close>

definition process_mus_commands :: "string \<Rightarrow> string" where
  "process_mus_commands track_data =
     re_sub match_spaces '' '' None
       (re_sub (match_char (CHR ''['')) [] None
         (re_sub (match_char (CHR '']'')) [] None
           (re_sub match_loop ''@L '' None
             (re_sub match_pan [] None
               (re_sub match_detune [] None track_data)))))"

section \<open>Track-line preprocessor\<close>

text \<open>
  The three tempo patterns \<open>@t(\d+)\<close>, \<open>@t\s+(\d+)\<close> and \<open>@\s*t\s*(\d+)\<close>.  Each matcher
  gives the length of the match and the digits of its group.
\<close>

definition match_tempo_basic :: "string \<Rightarrow> (nat \<times> string) option" where
  "match_tempo_basic s =
     (if startswith s ''@t'' \<and> takeWhile isdigit (drop 2 s) \<noteq> []
      then Some (2 + length (takeWhile isdigit (drop 2 s)), takeWhile isdigit (drop 2 s))
      else None)"

definition match_tempo_spaced :: "string \<Rightarrow> (nat \<times> string) option" where
  "match_tempo_spaced s =
     (if startswith s ''@t'' \<and> takeWhile isspace (drop 2 s) \<noteq> []
         \<and> takeWhile isdigit (dropWhile isspace (drop 2 s)) \<noteq> []
      then Some (2 + length (takeWhile isspace (drop 2 s))
                   + length (takeWhile isdigit (dropWhile isspace (drop 2 s))),
                 takeWhile isdigit (dropWhile isspace (drop 2 s)))
      else None)"

definition match_tempo_loose :: "string \<Rightarrow> (nat \<times> string) option" where
  "match_tempo_loose s =
     (if startswith s ''@'' \<and> startswith (dropWhile isspace (drop 1 s)) ''t''
         \<and> takeWhile isdigit (dropWhile isspace (drop 1 (dropWhile isspace (drop 1 s)))) \<noteq> []
      then Some (1 + length (takeWhile isspace (drop 1 s)) + 1
                   + length (takeWhile isspace (drop 1 (dropWhile isspace (drop 1 s))))
                   + length (takeWhile isdigit
                       (dropWhile isspace (drop 1 (dropWhile isspace (drop 1 s))))),
                 takeWhile isdigit (dropWhile isspace (drop 1 (dropWhile isspace (drop 1 s)))))
      else None)"

text \<open>
  The loop over \<open>tempo_patterns\<close>: the first pattern found anywhere in the text is cut out,
  the text is stripped on the left, and the loop ends.
\<close>

definition cut_tempo :: "string \<Rightarrow> nat \<times> nat \<times> string \<Rightarrow> string \<times> int option" where
  "cut_tempo s m =
     (case m of (i, n, ds) \<Rightarrow> (lstrip (take i s @ drop (i + n) s), Some (int_of_digits ds)))"

definition extract_tempo :: "string \<Rightarrow> string \<times> int option" where
  "extract_tempo s =
     (case re_search match_tempo_basic s of
        Some m \<Rightarrow> cut_tempo s m
      | None \<Rightarrow>
          (case re_search match_tempo_spaced s of
             Some m \<Rightarrow> cut_tempo s m
           | None \<Rightarrow>
               (case re_search match_tempo_loose s of
                  Some m \<Rightarrow> cut_tempo s m
                | None \<Rightarrow> (s, None))))"

text \<open>
  The dictionaries of the source keep insertion order, and an assignment to a key that is
  present keeps its place: that is \<^const>\<open>AList.update\<close> on an association list.
\<close>

definition preprocess_and_extract_data_from_track_line ::
  "string \<Rightarrow> char \<Rightarrow> (char \<times> string) list \<Rightarrow> string \<times> (char \<times> string) list \<times> int option" where
  "preprocess_and_extract_data_from_track_line line_content track_char track_instruments_dict =
     (case extract_tempo (lstrip line_content) of
        (line_content_stripped, extracted_tempo) \<Rightarrow>
          if startswith line_content_stripped ''@''
             \<and> takeWhile isdigit (drop 1 line_content_stripped) \<noteq> []
          then (lstrip (drop (1 + length (takeWhile isdigit (drop 1 line_content_stripped)))
                          line_content_stripped),
                AList.update track_char
                  (''@'' @ takeWhile isdigit (drop 1 line_content_stripped))
                  track_instruments_dict,
                extracted_tempo)
          else (line_content_stripped, track_instruments_dict, extracted_tempo))"

section \<open>MUS document parser: \<open>parse_mus_file\<close>\<close>

record mus_data =
  title :: string
  composer :: string
  tracks :: "(char \<times> string) list"
  track_instruments :: "(char \<times> string) list"
  voice_definitions :: "(string \<times> string) list"
  mus_tempo :: "int option"

record parse_state =
  result :: mus_data
  current_track :: "char option"
  track_data_list_for_current_track :: "string list"

definition VALID_MUS_TRACK_CHARS :: string where
  "VALID_MUS_TRACK_CHARS = ''ABCDEFGH''"

text \<open>\<open>str.splitlines\<close>: the line boundaries among the code points below 256.\<close>

definition linebreak_chars :: string where
  "linebreak_chars = [CHR 0x0A, CHR 0x0B, CHR 0x0C, CHR 0x0D, CHR 0x1C, CHR 0x1D, CHR 0x1E, CHR 0x85]"

fun splitlines_from :: "string \<Rightarrow> string \<Rightarrow> string list" where
  "splitlines_from cur [] = (if cur = [] then [] else [cur])"
| "splitlines_from cur [c] = (if c \<in> set linebreak_chars then [cur] else [cur @ [c]])"
| "splitlines_from cur (c # d # cs) =
     (if c = CHR 0x0D \<and> d = CHR 0x0A then cur # splitlines_from [] cs
      else if c \<in> set linebreak_chars then cur # splitlines_from [] (d # cs)
      else splitlines_from (cur @ [c]) (d # cs))"

definition splitlines :: "string \<Rightarrow> string list" where
  "splitlines content = splitlines_from [] content"

text \<open>The conditions of the classification cascade, each as the source tests it.\<close>

definition is_comment_or_blank :: "string \<Rightarrow> bool" where
  "is_comment_or_blank line_stripped =
     (line_stripped = [] \<or> startswith line_stripped '';'' \<or> startswith line_stripped ''*'')"

definition is_voice_definition_line :: "string \<Rightarrow> bool" where
  "is_voice_definition_line line_stripped =
     (startswith line_stripped ''@'' \<and> CHR ''='' \<in> set line_stripped
      \<and> CHR ''{'' \<in> set line_stripped \<and> CHR ''}'' \<in> set line_stripped)"

definition line_starts_with_track_char :: "string \<Rightarrow> bool" where
  "line_starts_with_track_char line_stripped =
     (case line_stripped of [] \<Rightarrow> False | c # rest \<Rightarrow> c \<in> set VALID_MUS_TRACK_CHARS)"

text \<open>
  The body of the voice-definition branch: the line is split at its first \<open>=\<close>; the
  definition is stored only when the part behind it starts with \<open>{\<close> and ends with \<open>}\<close>.
\<close>

definition store_voice_definition :: "string \<Rightarrow> mus_data \<Rightarrow> mus_data" where
  "store_voice_definition line_stripped res =
     (let inst_id_key = strip (takeWhile (\<lambda>c. c \<noteq> CHR ''='') line_stripped);
          inst_data_str = strip (drop 1 (dropWhile (\<lambda>c. c \<noteq> CHR ''='') line_stripped))
      in if inst_data_str \<noteq> [] \<and> hd inst_data_str = CHR ''{'' \<and> last inst_data_str = CHR ''}''
         then res\<lparr>voice_definitions := AList.update inst_id_key inst_data_str (voice_definitions res)\<rparr>
         else res)"

text \<open>The matcher of \<open>@\s*\d+(?!\s*=)\<close>: with two digits or more the pattern can give
  back its last digit, which then stands in front of the look-ahead.\<close>

definition match_instrument_directive :: "string \<Rightarrow> unit option" where
  "match_instrument_directive s =
     (if startswith s ''@'' \<and> takeWhile isdigit (dropWhile isspace (drop 1 s)) \<noteq> []
         \<and> (2 \<le> length (takeWhile isdigit (dropWhile isspace (drop 1 s)))
              \<or> \<not> startswith
                     (dropWhile isspace (dropWhile isdigit (dropWhile isspace (drop 1 s)))) ''='')
      then Some () else None)"

definition is_definition_command_present :: "string \<Rightarrow> bool" where
  "is_definition_command_present data_after_potential_track_id =
     (str_contains ''@t'' data_after_potential_track_id
      \<or> re_search match_instrument_directive (lstrip data_after_potential_track_id) \<noteq> None)"

text \<open>Saving the open track, as the source does before a new segment and at the end.\<close>

definition save_track_data :: "parse_state \<Rightarrow> mus_data" where
  "save_track_data st =
     (case current_track st of
        None \<Rightarrow> result st
      | Some t \<Rightarrow>
          if track_data_list_for_current_track st \<noteq> []
             \<and> strip (str_join '' '' (track_data_list_for_current_track st)) \<noteq> []
          then (result st)\<lparr>tracks :=
                  AList.update t (strip (str_join '' '' (track_data_list_for_current_track st)))
                    (tracks (result st))\<rparr>
          else result st)"

definition append_processed :: "string list \<Rightarrow> string \<Rightarrow> string list" where
  "append_processed xs processed_data = (if processed_data \<noteq> [] then xs @ [processed_data] else xs)"

definition parse_track_line :: "parse_state \<Rightarrow> char \<Rightarrow> string \<Rightarrow> parse_state" where
  "parse_track_line st potential_track_id data_after_potential_track_id =
     (if current_track st = None \<or> current_track st \<noteq> Some potential_track_id
         \<or> is_definition_command_present data_after_potential_track_id
      then
        (case preprocess_and_extract_data_from_track_line
                (lstrip data_after_potential_track_id) potential_track_id
                (track_instruments (save_track_data st)) of
           (processed_data, instruments, tempo) \<Rightarrow>
             \<lparr>result = (save_track_data st)
                 \<lparr>track_instruments := instruments,
                  mus_tempo := (if tempo \<noteq> None \<and> mus_tempo (save_track_data st) = None
                                then tempo else mus_tempo (save_track_data st))\<rparr>,
              current_track = Some potential_track_id,
              track_data_list_for_current_track = append_processed [] processed_data\<rparr>)
      else
        (case preprocess_and_extract_data_from_track_line
                (lstrip data_after_potential_track_id) potential_track_id
                (track_instruments (result st)) of
           (processed_data, instruments, tempo) \<Rightarrow>
             st\<lparr>result := (result st)\<lparr>track_instruments := instruments\<rparr>,
                track_data_list_for_current_track :=
                  append_processed (track_data_list_for_current_track st) processed_data\<rparr>))"

text \<open>One iteration of the loop over the lines.\<close>

definition parse_line :: "parse_state \<Rightarrow> string \<Rightarrow> parse_state" where
  "parse_line st line_raw =
     (if is_comment_or_blank (strip line_raw) then st
      else if upper_startswith (strip line_raw) ''#TITLE''
        then st\<lparr>result := (result st)
               \<lparr>title := filter (\<lambda>c. c \<noteq> CHR 0x22)
                           (strip (drop (length ''#TITLE'') (strip line_raw)))\<rparr>\<rparr>
      else if upper_startswith (strip line_raw) ''#COMPOSER''
        then st\<lparr>result := (result st)
               \<lparr>composer := filter (\<lambda>c. c \<noteq> CHR 0x22)
                              (strip (drop (length ''#COMPOSER'') (strip line_raw)))\<rparr>\<rparr>
      else if is_voice_definition_line (strip line_raw)
        then st\<lparr>result := store_voice_definition (strip line_raw) (result st)\<rparr>
      else if line_starts_with_track_char (strip line_raw)
        then parse_track_line st (hd (strip line_raw)) (tl (strip line_raw))
      else if strip line_raw \<noteq> [] \<and> current_track st \<noteq> None
        then st\<lparr>track_data_list_for_current_track :=
                  track_data_list_for_current_track st @ [strip line_raw]\<rparr>
      else st)"

definition initial_parse_state :: parse_state where
  "initial_parse_state =
     \<lparr>result = \<lparr>title = [], composer = [], tracks = [], track_instruments = [],
                voice_definitions = [], mus_tempo = None\<rparr>,
      current_track = None,
      track_data_list_for_current_track = []\<rparr>"

definition parse_mus_file :: "string \<Rightarrow> mus_data" where
  "parse_mus_file content = save_track_data (foldl parse_line initial_parse_state (splitlines content))"

section \<open>Tempo converter and document emitter: \<open>convert_mml_file\<close>\<close>

definition MUS_TO_NDP_TRACK_MAP :: "(char \<times> string) list" where
  "MUS_TO_NDP_TRACK_MAP =
     [(CHR ''A'', ''1''), (CHR ''B'', ''2''), (CHR ''C'', ''3''), (CHR ''D'', ''4''),
      (CHR ''E'', ''5''), (CHR ''F'', ''6''), (CHR ''G'', ''7''), (CHR ''H'', ''8'')]"

definition NDP_TIMEBASE :: int where
  "NDP_TIMEBASE = 48"

datatype py_error = ZeroDivisionError

text \<open>
  Python's \<open>round\<close> of a number: the nearest integer, a tie going to the even one.  The
  quotient is taken in the reals.  The source divides two integers into a double; for a
  tempo from 1 to 255 the exact quotient is \<open>46875 / (8 * (256 - mus_tempo))\<close>, whose
  distance to every tie is at least \<open>1 / 2040\<close>, far above the error of a double, so
  \<open>round\<close> gives the same integer on both.
\<close>

definition py_round :: "real \<Rightarrow> int" where
  "py_round x =
     (if x - of_int \<lfloor>x\<rfloor> < 1 / 2 then \<lfloor>x\<rfloor>
      else if 1 / 2 < x - of_int \<lfloor>x\<rfloor> then \<lfloor>x\<rfloor> + 1
      else if even \<lfloor>x\<rfloor> then \<lfloor>x\<rfloor> else \<lfloor>x\<rfloor> + 1)"

definition mus_tempo_to_bpm :: "int \<Rightarrow> py_error + int" where
  "mus_tempo_to_bpm t =
     (if 40 * 1024 * (256 - t) = 0 then Inl ZeroDivisionError
      else Inr (py_round ((60 * 4000000) / of_int (40 * 1024 * (256 - t)))))"

text \<open>The NDP channels of the tracks present, in the order of the sorted track letters.\<close>

definition ndp_track_num :: "char \<Rightarrow> string option" where
  "ndp_track_num mus_key =
     (case map_of MUS_TO_NDP_TRACK_MAP (ascii_upper mus_key) of
        None \<Rightarrow> None
      | Some num \<Rightarrow> if num = [] then None else Some num)"

definition active_ndp_tracks_for_tempo :: "mus_data \<Rightarrow> string list" where
  "active_ndp_tracks_for_tempo parsed_data =
     List.map_filter ndp_track_num (sort (map fst (tracks parsed_data)))"

text \<open>
  The lines the tempo block appends: one line or none.  An exception of the BPM
  computation is caught by the source and leaves the tempo line out.
\<close>

definition tempo_command_parts :: "mus_data \<Rightarrow> string list" where
  "tempo_command_parts parsed_data =
     (case mus_tempo parsed_data of
        None \<Rightarrow> []
      | Some t \<Rightarrow>
          if 1 \<le> t \<and> t \<le> 255 then
            (case mus_tempo_to_bpm t of
               Inl e \<Rightarrow> []
             | Inr bpm \<Rightarrow>
                 if tracks parsed_data \<noteq> [] \<and> active_ndp_tracks_for_tempo parsed_data \<noteq> []
                 then [concat (sort_key int_of_digits (active_ndp_tracks_for_tempo parsed_data))
                         @ '' T'' @ str_int bpm]
                 else [])
          else [])"

text \<open>
  The result dictionary of the parser always holds the keys \<open>title\<close> and \<open>composer\<close>, so
  the \<open>get\<close> of the source never takes its default: the header carries the parsed values.
\<close>

definition header_parts :: "mus_data \<Rightarrow> string list" where
  "header_parts parsed_data =
     [''#TITLE '' @ [CHR 0x22] @ title parsed_data @ [CHR 0x22],
      ''#COMPOSER '' @ [CHR 0x22] @ composer parsed_data @ [CHR 0x22],
      ''#TIMEBASE '' @ str_int NDP_TIMEBASE]"

definition voice_comment :: "string \<Rightarrow> string" where
  "voice_comment voice_data_str =
     strip (re_sub match_spaces '' '' None
       (map (\<lambda>c. if c = CHR 0x0A \<or> c = CHR 0x0D \<or> c = CHR 0x09 then CHR '' '' else c)
          voice_data_str))"

definition voice_definition_parts :: "mus_data \<Rightarrow> string list" where
  "voice_definition_parts parsed_data =
     (if voice_definitions parsed_data \<noteq> [] then
        [''// Voice Definitions (from MUS @ NN={...})'']
        @ map (\<lambda>(voice_id, voice_data_str). ''// '' @ voice_id @ '' = '' @ voice_comment voice_data_str)
            (sort (voice_definitions parsed_data))
        @ [[]]
      else [])"

definition track_instrument_parts :: "mus_data \<Rightarrow> string list" where
  "track_instrument_parts parsed_data =
     (if track_instruments parsed_data \<noteq> []
         \<and> list_ex (\<lambda>(track_char, inst_id_str). inst_id_str \<noteq> []) (track_instruments parsed_data)
      then
        [''// Track-specific Instrument Assignments (from MUS Track @NN)'']
        @ map (\<lambda>(track_char, inst_id_str). ''// Track '' @ [track_char] @ '': '' @ inst_id_str)
            (filter (\<lambda>(track_char, inst_id_str). inst_id_str \<noteq> [])
               (sort (track_instruments parsed_data)))
        @ [[]]
      else [])"

text \<open>
  The two words of the track header comment lie outside the 8-bit range; they stand here
  as their UTF-8 bytes, the form in which the output is written to the file.
\<close>

definition track_word :: string where
  "track_word = [CHR 0xE3, CHR 0x83, CHR 0x88, CHR 0xE3, CHR 0x83, CHR 0xA9,
                 CHR 0xE3, CHR 0x83, CHR 0x83, CHR 0xE3, CHR 0x82, CHR 0xAF]"

definition channel_word :: string where
  "channel_word = [CHR 0xE3, CHR 0x83, CHR 0x81, CHR 0xE3, CHR 0x83, CHR 0xA3,
                   CHR 0xE3, CHR 0x83, CHR 0xB3, CHR 0xE3, CHR 0x83, CHR 0x8D,
                   CHR 0xE3, CHR 0x83, CHR 0xAB]"

text \<open>
  The loop over the sorted track letters.  A letter taken from the dictionary is always
  found in it; a letter without a channel is skipped.  The result is \<open>None\<close> when the line
  wrapper does not return.
\<close>

fun processed_tracks_output :: "(char \<times> string) list \<Rightarrow> char list \<Rightarrow> string list option" where
  "processed_tracks_output trks [] = Some []"
| "processed_tracks_output trks (mus_track_key # keys) =
     (case map_of trks mus_track_key of
        None \<Rightarrow> None
      | Some full_mus_track_data \<Rightarrow>
          (case ndp_track_num mus_track_key of
             None \<Rightarrow> processed_tracks_output trks keys
           | Some mml_channel_id \<Rightarrow>
               (case split_track_data (process_mus_commands full_mus_track_data)
                       mml_channel_id MAX_LINE_LENGTH_MMLE of
                  None \<Rightarrow> None
                | Some mml_track_lines_split \<Rightarrow>
                    (case processed_tracks_output trks keys of
                       None \<Rightarrow> None
                     | Some rest \<Rightarrow>
                         Some ([''// '' @ track_word @ '' '' @ [ascii_upper mus_track_key]
                                  @ '' ('' @ channel_word @ '' '' @ mml_channel_id @ '')'']
                               @ mml_track_lines_split @ [[]] @ rest)))))"

definition mml_output_parts :: "mus_data \<Rightarrow> string list option" where
  "mml_output_parts parsed_data =
     (case processed_tracks_output (tracks parsed_data) (sort (map fst (tracks parsed_data))) of
        None \<Rightarrow> None
      | Some track_lines \<Rightarrow>
          Some (header_parts parsed_data @ tempo_command_parts parsed_data @ [[]]
                @ voice_definition_parts parsed_data @ track_instrument_parts parsed_data
                @ track_lines))"

definition final_mml_content :: "string list \<Rightarrow> string" where
  "final_mml_content parts =
     (if strip (str_join [CHR 0x0A] parts) \<noteq> [] then strip (str_join [CHR 0x0A] parts) @ [CHR 0x0A]
      else [CHR 0x0A])"

text \<open>
  The conversion from the text of the MUS file (reading the file is left to the caller).
\<close>

definition emit_mml_document :: "mus_data \<Rightarrow> string option" where
  "emit_mml_document parsed_data = map_option final_mml_content (mml_output_parts parsed_data)"

definition convert_mml_file :: "string \<Rightarrow> string option" where
  "convert_mml_file mus_content = emit_mml_document (parse_mus_file mus_content)"

section \<open>Reference notions used in the properties\<close>

subsection \<open>The translation pipeline in words\<close>

text \<open>
  The six steps as the description words them, each written on its own and not through
  the pattern matcher: remove every \<open>D\<close> with an optional sign and digits; remove every
  \<open>p\<close> with digits; rewrite every \<open>L\<close> followed by whitespace into \<open>@L\<close> and one space;
  delete every \<open>]\<close>; delete every \<open>[\<close>; collapse every run of whitespace to one space.
\<close>

definition skip_sign :: "string \<Rightarrow> string" where
  "skip_sign s = (case s of [] \<Rightarrow> [] | x # t \<Rightarrow> if x = CHR ''-'' \<or> x = CHR ''+'' then t else s)"

function remove_detune_commands :: "string \<Rightarrow> string" where
  "remove_detune_commands [] = []"
| "remove_detune_commands (c # cs) =
     (if c = CHR ''D'' \<and> takeWhile isdigit (skip_sign cs) \<noteq> []
      then remove_detune_commands (dropWhile isdigit (skip_sign cs))
      else c # remove_detune_commands cs)"
  by pat_completeness auto
termination
proof (relation "measure length")
  fix c :: char and cs :: string
  have "length (dropWhile isdigit (skip_sign cs)) \<le> length (skip_sign cs)"
    by (rule length_dropWhile_le)
  also have "length (skip_sign cs) \<le> length cs"
    by (cases cs) (simp_all add: skip_sign_def)
  finally show "(dropWhile isdigit (skip_sign cs), c # cs) \<in> measure length" by simp
qed simp_all

function remove_pan_commands :: "string \<Rightarrow> string" where
  "remove_pan_commands [] = []"
| "remove_pan_commands (c # cs) =
     (if c = CHR ''p'' \<and> takeWhile isdigit cs \<noteq> []
      then remove_pan_commands (dropWhile isdigit cs)
      else c # remove_pan_commands cs)"
  by pat_completeness auto
termination
proof (relation "measure length")
  fix c :: char and cs :: string
  show "(dropWhile isdigit cs, c # cs) \<in> measure length"
    using length_dropWhile_le [of isdigit cs] by simp
qed simp_all

text \<open>Every \<open>L\<close> that whitespace follows, wherever it stands.\<close>

function rewrite_loop_tokens :: "string \<Rightarrow> string" where
  "rewrite_loop_tokens [] = []"
| "rewrite_loop_tokens (c # cs) =
     (if c = CHR ''L'' \<and> takeWhile isspace cs \<noteq> []
      then ''@L '' @ rewrite_loop_tokens (dropWhile isspace cs)
      else c # rewrite_loop_tokens cs)"
  by pat_completeness auto
termination
proof (relation "measure length")
  fix c :: char and cs :: string
  show "(dropWhile isspace cs, c # cs) \<in> measure length"
    using length_dropWhile_le [of isspace cs] by simp
qed simp_all

text \<open>
  Every \<open>L\<close> that whitespace follows and that stands at a word boundary: at the start
  of the text or behind a character that is no letter, digit or underscore.  The flag
  says whether the position is such a boundary.
\<close>

function rewrite_loop_tokens_at_boundary :: "bool \<Rightarrow> string \<Rightarrow> string" where
  "rewrite_loop_tokens_at_boundary boundary [] = []"
| "rewrite_loop_tokens_at_boundary boundary (c # cs) =
     (if c = CHR ''L'' \<and> boundary \<and> takeWhile isspace cs \<noteq> []
      then ''@L '' @ rewrite_loop_tokens_at_boundary True (dropWhile isspace cs)
      else c # rewrite_loop_tokens_at_boundary (\<not> isword c) cs)"
  by pat_completeness auto
termination
proof (relation "measure (\<lambda>(boundary, s). length s)")
  fix boundary :: bool and c :: char and cs :: string
  show "((True, dropWhile isspace cs), (boundary, c # cs)) \<in> measure (\<lambda>(boundary, s). length s)"
    using length_dropWhile_le [of isspace cs] by simp
qed simp_all

fun collapse_whitespace :: "string \<Rightarrow> string" where
  "collapse_whitespace [] = []"
| "collapse_whitespace [c] = [if isspace c then CHR '' '' else c]"
| "collapse_whitespace (c # d # cs) =
     (if isspace c \<and> isspace d then collapse_whitespace (d # cs)
      else (if isspace c then CHR '' '' else c) # collapse_whitespace (d # cs))"

definition reference_pipeline :: "string \<Rightarrow> string" where
  "reference_pipeline track_data =
     collapse_whitespace
       (filter (\<lambda>c. c \<noteq> CHR ''['')
         (filter (\<lambda>c. c \<noteq> CHR '']'')
           (rewrite_loop_tokens
             (remove_pan_commands
               (remove_detune_commands track_data)))))"

definition reference_pipeline_at_boundary :: "string \<Rightarrow> string" where
  "reference_pipeline_at_boundary track_data =
     collapse_whitespace
       (filter (\<lambda>c. c \<noteq> CHR ''['')
         (filter (\<lambda>c. c \<noteq> CHR '']'')
           (rewrite_loop_tokens_at_boundary True
             (remove_pan_commands
               (remove_detune_commands track_data)))))"

subsection \<open>The chunks of the line wrapper\<close>

text \<open>
  The sequence of chunks the wrapper loop cuts from a text: \<open>wrapped m r cs\<close> says that
  from the remaining text \<open>r\<close>, with maximum length \<open>m\<close>, the loop emits the chunks \<open>cs\<close>.
\<close>

inductive wrapped :: "nat \<Rightarrow> string \<Rightarrow> string list \<Rightarrow> bool" where
  wrapped_done: "wrapped m [] []"
| wrapped_last: "r \<noteq> [] \<Longrightarrow> length r \<le> m \<Longrightarrow> wrapped m r [r]"
| wrapped_cut: "m < length r \<Longrightarrow> wrapped m (strip (drop (choose_split_index r m) r)) cs
     \<Longrightarrow> wrapped m r (take (choose_split_index r m) r # cs)"

definition remove_whitespace :: "string \<Rightarrow> string" where
  "remove_whitespace s = filter (\<lambda>c. \<not> isspace c) s"

text \<open>
  Repeated \<open>c1\<close> pairs: the pair \<open>c1\<close> once or more, each pair but the last followed by a
  single space or by nothing, as the list of flags says.
\<close>

fun repeated_c1 :: "bool list \<Rightarrow> string" where
  "repeated_c1 [] = ''c1''"
| "repeated_c1 (b # bs) = (if b then ''c1 '' else ''c1'') @ repeated_c1 bs"

subsection \<open>Header lines\<close>

text \<open>
  A \<open>#TITLE\<close> line and a \<open>#COMPOSER\<close> line: a line that, trimmed, starts with the
  keyword in any letter case.  The value of such a line is what follows the keyword,
  trimmed, with the quote characters removed.
\<close>

definition is_title_line :: "string \<Rightarrow> bool" where
  "is_title_line line_raw = upper_startswith (strip line_raw) ''#TITLE''"

definition is_composer_line :: "string \<Rightarrow> bool" where
  "is_composer_line line_raw = upper_startswith (strip line_raw) ''#COMPOSER''"

definition header_value :: "string \<Rightarrow> string \<Rightarrow> string" where
  "header_value keyword line_raw =
     filter (\<lambda>c. c \<noteq> CHR 0x22) (strip (drop (length keyword) (strip line_raw)))"

subsection \<open>Continuation lines\<close>

text \<open>
  The classification of a line in words, on the line as it stands in the text.  The
  first character that is not whitespace decides blank lines, comments and track lines.
\<close>

definition first_nonspace :: "string \<Rightarrow> char option" where
  "first_nonspace line_raw =
     (case dropWhile isspace line_raw of [] \<Rightarrow> None | c # rest \<Rightarrow> Some c)"

text \<open>
  A voice definition as the description words it: an \<open>@\<close>, an identifier, \<open>=\<close>, then a
  body delimited by braces.
\<close>

definition voice_definition_as_described :: "string \<Rightarrow> bool" where
  "voice_definition_as_described line_raw =
     (first_nonspace line_raw = Some (CHR ''@'') \<and> CHR ''='' \<in> set line_raw
      \<and> strip (drop 1 (dropWhile (\<lambda>c. c \<noteq> CHR ''='') line_raw)) \<noteq> []
      \<and> hd (strip (drop 1 (dropWhile (\<lambda>c. c \<noteq> CHR ''='') line_raw))) = CHR ''{''
      \<and> last (strip (drop 1 (dropWhile (\<lambda>c. c \<noteq> CHR ''='') line_raw))) = CHR ''}'')"

text \<open>
  A line that matches none of the earlier rules, with the voice-definition rule as the
  description words it.
\<close>

definition is_continuation_line_as_stated :: "string \<Rightarrow> bool" where
  "is_continuation_line_as_stated line_raw =
     (case first_nonspace line_raw of
        None \<Rightarrow> False
      | Some c \<Rightarrow>
          c \<noteq> CHR '';'' \<and> c \<noteq> CHR ''*''
          \<and> \<not> is_title_line line_raw \<and> \<not> is_composer_line line_raw
          \<and> \<not> voice_definition_as_described line_raw
          \<and> c \<notin> set VALID_MUS_TRACK_CHARS)"

text \<open>
  A line that matches none of the earlier rules, the voice-definition rule taking every
  line that starts with \<open>@\<close> and holds an \<open>=\<close>, a \<open>{\<close> and a \<open>}\<close> somewhere.
\<close>

definition is_continuation_line :: "string \<Rightarrow> bool" where
  "is_continuation_line line_raw =
     (case first_nonspace line_raw of
        None \<Rightarrow> False
      | Some c \<Rightarrow>
          c \<noteq> CHR '';'' \<and> c \<noteq> CHR ''*''
          \<and> \<not> is_title_line line_raw \<and> \<not> is_composer_line line_raw
          \<and> \<not> (c = CHR ''@'' \<and> CHR ''='' \<in> set line_raw \<and> CHR ''{'' \<in> set line_raw
                 \<and> CHR ''}'' \<in> set line_raw)
          \<and> c \<notin> set VALID_MUS_TRACK_CHARS)"

subsection \<open>Track letters\<close>

text \<open>
  The invariant of the line loop on the track letters: every key of \<open>tracks\<close> and the
  letter of the open track are among \<open>A\<close> to \<open>H\<close>.
\<close>

definition track_keys_valid :: "parse_state \<Rightarrow> bool" where
  "track_keys_valid st =
     (fst ` set (tracks (result st)) \<subseteq> set VALID_MUS_TRACK_CHARS
      \<and> (\<forall>t. current_track st = Some t \<longrightarrow> t \<in> set VALID_MUS_TRACK_CHARS))"

section \<open>Properties of the line wrapper\<close>

lemma find_split_index_le: "find_split_index r n \<le> n"
  by (induction n) auto

lemma find_split_index_safe:
  "find_split_index r n \<noteq> 0 \<Longrightarrow>
     find_split_index r n < length r \<and> r ! find_split_index r n \<in> set safe_split_chars"
  by (induction n) (auto split: if_splits)

lemma choose_split_index_bounds:
  "0 < m \<Longrightarrow> 0 < choose_split_index r m \<and> choose_split_index r m \<le> m"
  using find_split_index_le [of r m] by (auto simp: choose_split_index_def)

lemma length_strip_le: "length (strip s) \<le> length s"
proof -
  have "length (strip s) \<le> length (lstrip s)"
    unfolding strip_def rstrip_def using length_dropWhile_le [of isspace "rev (lstrip s)"] by simp
  also have "\<dots> \<le> length s"
    unfolding lstrip_def by (rule length_dropWhile_le)
  finally show ?thesis .
qed

lemma split_loop_wrapped:
  "0 < m \<Longrightarrow> \<exists>cs. wrapped m r cs \<and>
      split_loop ch m r acc = Some (acc @ map (\<lambda>c. ch @ '' '' @ c) cs)"
proof (induction "length r" arbitrary: r acc rule: less_induct)
  case less
  show ?case
  proof (cases "r = []")
    case True
    then show ?thesis
      by (subst split_loop.simps) (auto intro: wrapped_done)
  next
    case False
    show ?thesis
    proof (cases "length r \<le> m")
      case True
      with False have "wrapped m r [r]" by (rule wrapped_last)
      moreover from False True have "split_loop ch m r acc = Some (acc @ map (\<lambda>c. ch @ '' '' @ c) [r])"
        by (subst split_loop.simps) simp
      ultimately show ?thesis by blast
    next
      case long: False
      let ?k = "choose_split_index r m"
      let ?r' = "strip (drop ?k r)"
      have k: "0 < ?k" using choose_split_index_bounds [OF less.prems] by simp
      have "length ?r' \<le> length (drop ?k r)" by (rule length_strip_le)
      also have "\<dots> < length r" using k long by simp
      finally have "length ?r' < length r" .
      from less.hyps [OF this less.prems, of "acc @ [ch @ '' '' @ take ?k r]"]
      obtain cs where cs: "wrapped m ?r' cs"
         "split_loop ch m ?r' (acc @ [ch @ '' '' @ take ?k r]) =
            Some ((acc @ [ch @ '' '' @ take ?k r]) @ map (\<lambda>c. ch @ '' '' @ c) cs)"
        by blast
      from long cs(1) have "wrapped m r (take ?k r # cs)"
        by (intro wrapped_cut) simp_all
      moreover from False long cs(2)
      have "split_loop ch m r acc = Some (acc @ map (\<lambda>c. ch @ '' '' @ c) (take ?k r # cs))"
        by (subst split_loop.simps) simp
      ultimately show ?thesis by blast
    qed
  qed
qed

lemma wrapped_nonempty: "wrapped m r cs \<Longrightarrow> 0 < m \<Longrightarrow> \<forall>c\<in>set cs. c \<noteq> []"
proof (induction rule: wrapped.induct)
  case (wrapped_cut m r cs)
  then show ?case using choose_split_index_bounds [of m r] by auto
qed auto

lemma wrapped_length: "wrapped m r cs \<Longrightarrow> 0 < m \<Longrightarrow> \<forall>c\<in>set cs. length c \<le> m"
proof (induction rule: wrapped.induct)
  case (wrapped_cut m r cs)
  then show ?case using choose_split_index_bounds [of m r] by auto
qed auto

lemma filter_dropWhile_not: "filter (\<lambda>c. \<not> P c) (dropWhile P s) = filter (\<lambda>c. \<not> P c) s"
  by (induction s) auto

lemma remove_whitespace_lstrip: "remove_whitespace (lstrip s) = remove_whitespace s"
  by (simp add: remove_whitespace_def lstrip_def filter_dropWhile_not)

lemma remove_whitespace_rstrip: "remove_whitespace (rstrip s) = remove_whitespace s"
proof -
  have "rev (remove_whitespace (rstrip s)) = rev (remove_whitespace s)"
    by (simp add: remove_whitespace_def rstrip_def rev_filter filter_dropWhile_not)
  then show ?thesis by simp
qed

lemma remove_whitespace_strip: "remove_whitespace (strip s) = remove_whitespace s"
  by (simp add: strip_def remove_whitespace_lstrip remove_whitespace_rstrip)

lemma remove_whitespace_append:
  "remove_whitespace (a @ b) = remove_whitespace a @ remove_whitespace b"
  by (simp add: remove_whitespace_def)

lemma wrapped_remove_whitespace:
  "wrapped m r cs \<Longrightarrow> remove_whitespace (concat cs) = remove_whitespace r"
proof (induction rule: wrapped.induct)
  case (wrapped_cut m r cs)
  have "remove_whitespace (concat (take (choose_split_index r m) r # cs)) =
        remove_whitespace (take (choose_split_index r m) r) @
        remove_whitespace (drop (choose_split_index r m) r)"
    using wrapped_cut.IH by (simp add: remove_whitespace_append remove_whitespace_strip)
  also have "\<dots> = remove_whitespace (take (choose_split_index r m) r @ drop (choose_split_index r m) r)"
    by (simp only: remove_whitespace_append)
  finally show ?case by simp
qed simp_all

lemma strip_id: "s \<noteq> [] \<Longrightarrow> \<not> isspace (hd s) \<Longrightarrow> \<not> isspace (last s) \<Longrightarrow> strip s = s"
proof -
  assume a: "s \<noteq> []" "\<not> isspace (hd s)" "\<not> isspace (last s)"
  then have l: "lstrip s = s" by (cases s) (simp_all add: lstrip_def)
  from a have "dropWhile isspace (rev s) = rev s"
    by (cases "rev s") (simp_all add: last_rev [symmetric] hd_rev)
  then have "rstrip s = s" by (simp add: rstrip_def)
  with l show ?thesis by (simp add: strip_def)
qed

lemma repeated_c1_hd: "\<exists>t. repeated_c1 bs = CHR ''c'' # t"
  by (cases bs) auto

lemma repeated_c1_last: "last (repeated_c1 bs) = CHR ''1''"
proof (induction bs)
  case (Cons b bs)
  obtain t where "repeated_c1 bs = CHR ''c'' # t" using repeated_c1_hd by blast
  with Cons show ?case by (simp add: last_append)
qed simp

lemma repeated_c1_set: "set (repeated_c1 bs) \<subseteq> {CHR ''c'', CHR ''1'', CHR '' ''}"
  by (induction bs) auto

lemma strip_repeated_c1: "strip (repeated_c1 bs) = repeated_c1 bs"
proof (rule strip_id)
  obtain t where t: "repeated_c1 bs = CHR ''c'' # t" using repeated_c1_hd by blast
  then show "repeated_c1 bs \<noteq> []" by simp
  from t show "\<not> isspace (hd (repeated_c1 bs))" by (simp add: isspace_def whitespace_chars_def)
  show "\<not> isspace (last (repeated_c1 bs))"
    by (simp add: repeated_c1_last isspace_def whitespace_chars_def)
qed

lemma repeated_c1_drop:
  "k < length (repeated_c1 bs) \<Longrightarrow> repeated_c1 bs ! k = CHR ''c'' \<Longrightarrow>
     \<exists>bs'. drop k (repeated_c1 bs) = repeated_c1 bs'"
proof (induction bs arbitrary: k)
  case Nil
  then have "k = 0" by (cases k) (auto simp: nth_Cons')
  then show ?case by (intro exI [of _ "[]"]) simp
next
  case (Cons b bs)
  let ?t = "if b then ''c1 '' else ''c1''"
  show ?case
  proof (cases "k < length ?t")
    case True
    with Cons.prems(2) have "k = 0"
      by (cases b) (auto simp: nth_Cons' nth_append split: if_splits)
    then show ?thesis by (intro exI [of _ "b # bs"]) simp
  next
    case False
    with Cons.prems have "k - length ?t < length (repeated_c1 bs)"
        "repeated_c1 bs ! (k - length ?t) = CHR ''c''"
      by (auto simp: nth_append split: if_splits)
    from Cons.IH [OF this] obtain bs' where
      "drop (k - length ?t) (repeated_c1 bs) = repeated_c1 bs'" by blast
    with False show ?thesis by (intro exI [of _ bs']) auto
  qed
qed

lemma find_split_index_found:
  "i \<le> n \<Longrightarrow> 0 < i \<Longrightarrow> i < length r \<Longrightarrow> r ! i \<in> set safe_split_chars \<Longrightarrow>
     find_split_index r n \<noteq> 0"
  by (induction n) (auto simp: le_Suc_eq)

lemma repeated_c1_second:
  assumes "3 < length (repeated_c1 bs)"
  shows "\<exists>i. 0 < i \<and> i \<le> 3 \<and> i < length (repeated_c1 bs) \<and> repeated_c1 bs ! i = CHR ''c''"
proof (cases bs)
  case Nil
  with assms show ?thesis by simp
next
  case (Cons b bs')
  obtain t where t: "repeated_c1 bs' = CHR ''c'' # t" using repeated_c1_hd by blast
  show ?thesis
  proof (cases b)
    case True
    with Cons t show ?thesis by (intro exI [of _ 3]) simp
  next
    case False
    with Cons t show ?thesis by (intro exI [of _ 2]) simp
  qed
qed

lemma repeated_c1_choose:
  assumes "80 < length (repeated_c1 bs)"
  shows "0 < choose_split_index (repeated_c1 bs) 80 \<and>
         choose_split_index (repeated_c1 bs) 80 < length (repeated_c1 bs) \<and>
         repeated_c1 bs ! choose_split_index (repeated_c1 bs) 80 = CHR ''c''"
proof -
  let ?r = "repeated_c1 bs"
  from assms repeated_c1_second [of bs]
  obtain i where i: "0 < i" "i \<le> 3" "i < length ?r" "?r ! i = CHR ''c''" by auto
  then have nz: "find_split_index ?r 80 \<noteq> 0"
    by (intro find_split_index_found [of i]) (simp_all add: safe_split_chars_def)
  then have k: "choose_split_index ?r 80 = find_split_index ?r 80"
    by (simp add: choose_split_index_def)
  from find_split_index_safe [OF nz]
  have s: "find_split_index ?r 80 < length ?r"
     "?r ! find_split_index ?r 80 \<in> set safe_split_chars" by simp_all
  from s(1) have "?r ! find_split_index ?r 80 \<in> set ?r" by simp
  with repeated_c1_set [of bs] s(2) have "?r ! find_split_index ?r 80 = CHR ''c''"
    by (auto simp: safe_split_chars_def)
  with nz k s(1) show ?thesis by simp
qed

lemma wrapped_repeated_c1:
  "wrapped m r cs \<Longrightarrow> m = 80 \<Longrightarrow> r = repeated_c1 bs \<Longrightarrow>
     concat cs = r \<and> (\<forall>c\<in>set cs. c \<noteq> [] \<and> hd c = CHR ''c'')"
proof (induction arbitrary: bs rule: wrapped.induct)
  case (wrapped_done m)
  then show ?case using repeated_c1_hd [of bs] by auto
next
  case (wrapped_last r m)
  then show ?case using repeated_c1_hd [of bs] by auto
next
  case (wrapped_cut m r cs)
  let ?k = "choose_split_index r m"
  from wrapped_cut.hyps(1) wrapped_cut.prems
  have k: "0 < ?k" "?k < length r" "r ! ?k = CHR ''c''"
    using repeated_c1_choose [of bs] by simp_all
  with wrapped_cut.prems obtain bs' where bs': "drop ?k r = repeated_c1 bs'"
    using repeated_c1_drop [of ?k bs] by auto
  then have "strip (drop ?k r) = repeated_c1 bs'" by (simp add: strip_repeated_c1)
  from wrapped_cut.IH [OF wrapped_cut.prems(1) this] bs'
  have ih: "concat cs = drop ?k r" "\<forall>c\<in>set cs. c \<noteq> [] \<and> hd c = CHR ''c''"
    by (simp_all add: strip_repeated_c1)
  obtain t where "r = CHR ''c'' # t" using repeated_c1_hd [of bs] wrapped_cut.prems by auto
  with k(1) have "take ?k r \<noteq> [] \<and> hd (take ?k r) = CHR ''c''"
    by (cases ?k) auto
  with ih show ?case by simp
qed

lemma split_track_data_wrapped:
  "0 < m \<Longrightarrow> \<exists>cs. wrapped m (strip s) cs \<and>
      split_track_data s ch m = Some (map (\<lambda>c. ch @ '' '' @ c) cs)"
proof (cases "strip s = []")
  case True
  then show ?thesis
    by (auto simp: split_track_data_def intro: wrapped_done)
next
  case False
  assume "0 < m"
  from split_loop_wrapped [OF this, of "strip s" ch "[]"] False
  show ?thesis by (simp add: split_track_data_def)
qed

lemma split_track_data_line_bound:
  assumes "split_track_data mml_data channel_id MAX_LINE_LENGTH_MMLE = Some ls" "l \<in> set ls"
  shows "length l \<le> length channel_id + 1 + MAX_LINE_LENGTH_MMLE"
proof -
  have pos: "0 < MAX_LINE_LENGTH_MMLE" by (simp add: MAX_LINE_LENGTH_MMLE_def)
  from split_track_data_wrapped [OF pos, of mml_data channel_id] assms(1)
  obtain cs where cs: "wrapped MAX_LINE_LENGTH_MMLE (strip mml_data) cs"
    "ls = map (\<lambda>c. channel_id @ '' '' @ c) cs" by auto
  from wrapped_length [OF cs(1) pos] cs(2) assms(2) show ?thesis by auto
qed

text \<open>
  C3.  The comment at \<open>MAX_LINE_LENGTH_MMLE\<close> calls 80 the maximum number of characters
  of a line, and the wrapper is to keep every output line within it.  The wrapper
  measures the chunk alone and puts the channel id and a space in front afterwards: a
  track of 80 characters on channel 1 comes out as one line of 82 characters.
\<close>

theorem split_track_data_line_exceeds_max:
  "split_track_data (replicate 80 (CHR ''c'')) ''1'' MAX_LINE_LENGTH_MMLE
     = Some [''1 '' @ replicate 80 (CHR ''c'')]
   \<and> length (''1 '' @ replicate 80 (CHR ''c'')) = 82
   \<and> MAX_LINE_LENGTH_MMLE = 80"
proof -
  have "strip (replicate 80 (CHR ''c'')) = replicate 80 (CHR ''c'')"
    by (simp add: strip_def lstrip_def rstrip_def isspace_def whitespace_chars_def)
  then show ?thesis
    by (simp add: split_track_data_def split_loop.simps MAX_LINE_LENGTH_MMLE_def)
qed

text \<open>
  C4.  For every text the wrapper returns lines made of the channel id, a space and a
  chunk; the chunks, put together, are the trimmed text up to whitespace; a text that
  is empty after trimming gives no line.  When the trimmed text consists of repeated
  \<open>c1\<close> pairs, the chunks put together are the trimmed text itself, so the line
  boundaries are the cut positions, and every chunk starts with a safe character:
  each cut falls immediately before one.
\<close>

theorem split_track_data_repeated_c1:
  "\<exists>chunks. split_track_data mml_data channel_id MAX_LINE_LENGTH_MMLE
       = Some (map (\<lambda>c. channel_id @ '' '' @ c) chunks)
     \<and> remove_whitespace (concat chunks) = remove_whitespace (strip mml_data)
     \<and> (strip mml_data = [] \<longrightarrow> chunks = [])
     \<and> (\<forall>bs. strip mml_data = repeated_c1 bs \<longrightarrow>
           concat chunks = strip mml_data
           \<and> (\<forall>c\<in>set chunks. c \<noteq> [] \<and> hd c \<in> set safe_split_chars))"
proof -
  have pos: "0 < MAX_LINE_LENGTH_MMLE" by (simp add: MAX_LINE_LENGTH_MMLE_def)
  from split_track_data_wrapped [OF pos, of mml_data channel_id]
  obtain cs where cs: "wrapped MAX_LINE_LENGTH_MMLE (strip mml_data) cs"
    "split_track_data mml_data channel_id MAX_LINE_LENGTH_MMLE
       = Some (map (\<lambda>c. channel_id @ '' '' @ c) cs)" by blast
  have a: "remove_whitespace (concat cs) = remove_whitespace (strip mml_data)"
    using cs(1) by (rule wrapped_remove_whitespace)
  have b: "strip mml_data = [] \<longrightarrow> cs = []"
    using cs(1) by (auto elim: wrapped.cases)
  have c: "\<forall>bs. strip mml_data = repeated_c1 bs \<longrightarrow>
           concat cs = strip mml_data \<and> (\<forall>c\<in>set cs. c \<noteq> [] \<and> hd c \<in> set safe_split_chars)"
  proof (intro allI impI)
    fix bs assume "strip mml_data = repeated_c1 bs"
    from wrapped_repeated_c1 [OF cs(1) _ this]
    show "concat cs = strip mml_data \<and> (\<forall>c\<in>set cs. c \<noteq> [] \<and> hd c \<in> set safe_split_chars)"
      by (auto simp: MAX_LINE_LENGTH_MMLE_def safe_split_chars_def)
  qed
  from cs(2) a b c show ?thesis by blast
qed

text \<open>
  C10.  With the maximum length 80 the wrapper returns on every text: the chosen split
  index is at least 1 and at most 80, the text that remains after a cut is shorter than
  before, and every line returned carries a chunk that is not empty.
\<close>

theorem split_track_data_terminates:
  "(\<exists>ls. split_track_data mml_data channel_id MAX_LINE_LENGTH_MMLE = Some ls
        \<and> (\<forall>l\<in>set ls. \<exists>chunk. chunk \<noteq> [] \<and> l = channel_id @ '' '' @ chunk))
   \<and> 1 \<le> choose_split_index remaining_data MAX_LINE_LENGTH_MMLE
   \<and> choose_split_index remaining_data MAX_LINE_LENGTH_MMLE \<le> MAX_LINE_LENGTH_MMLE
   \<and> (remaining_data \<noteq> [] \<longrightarrow>
        length (strip (drop (choose_split_index remaining_data MAX_LINE_LENGTH_MMLE) remaining_data))
          < length remaining_data)"
proof -
  have pos: "0 < MAX_LINE_LENGTH_MMLE" by (simp add: MAX_LINE_LENGTH_MMLE_def)
  from split_track_data_wrapped [OF pos, of mml_data channel_id]
  obtain cs where cs: "wrapped MAX_LINE_LENGTH_MMLE (strip mml_data) cs"
    "split_track_data mml_data channel_id MAX_LINE_LENGTH_MMLE
       = Some (map (\<lambda>c. channel_id @ '' '' @ c) cs)" by blast
  from wrapped_nonempty [OF cs(1) pos] cs(2)
  have a: "\<exists>ls. split_track_data mml_data channel_id MAX_LINE_LENGTH_MMLE = Some ls
        \<and> (\<forall>l\<in>set ls. \<exists>chunk. chunk \<noteq> [] \<and> l = channel_id @ '' '' @ chunk)"
    by auto
  let ?k = "choose_split_index remaining_data MAX_LINE_LENGTH_MMLE"
  from choose_split_index_bounds [OF pos, of remaining_data]
  have k: "1 \<le> ?k" "?k \<le> MAX_LINE_LENGTH_MMLE" by simp_all
  have "length (strip (drop ?k remaining_data)) < length remaining_data"
    if "remaining_data \<noteq> []"
  proof -
    have "length (strip (drop ?k remaining_data)) \<le> length (drop ?k remaining_data)"
      by (rule length_strip_le)
    also have "\<dots> < length remaining_data" using k(1) that by simp
    finally show ?thesis .
  qed
  with a k show ?thesis by blast
qed

theorem split_track_data_repeated_c1_witness:
  "split_track_data ''  '' ''1'' MAX_LINE_LENGTH_MMLE = Some []
   \<and> split_track_data (repeated_c1 (replicate 40 False)) ''1'' MAX_LINE_LENGTH_MMLE
     = Some [''1 c1c1c1c1c1c1c1c1c1c1c1c1c1c1c1c1c1c1c1c1c1c1c1c1c1c1c1c1c1c1c1c1c1c1c1c1c1c1c1c1'',
             ''1 c1'']
   \<and> (\<exists>chunks. split_track_data (repeated_c1 (replicate 40 False)) ''1'' MAX_LINE_LENGTH_MMLE
          = Some (map (\<lambda>c. ''1 '' @ c) chunks)
        \<and> chunks \<noteq> []
        \<and> concat chunks = repeated_c1 (replicate 40 False)
        \<and> (\<forall>c\<in>set chunks. c \<noteq> [] \<and> hd c \<in> set safe_split_chars))"
proof -
  let ?x = "repeated_c1 (replicate 40 False)"
  have e: "split_track_data ?x ''1'' MAX_LINE_LENGTH_MMLE
     = Some [''1 c1c1c1c1c1c1c1c1c1c1c1c1c1c1c1c1c1c1c1c1c1c1c1c1c1c1c1c1c1c1c1c1c1c1c1c1c1c1c1c1'',
             ''1 c1'']"
    by code_simp
  have h: "strip ?x = ?x" by (rule strip_repeated_c1)
  from split_track_data_repeated_c1 [of ?x "''1''"]
  obtain chunks where c:
    "split_track_data ?x ''1'' MAX_LINE_LENGTH_MMLE = Some (map (\<lambda>c. ''1'' @ '' '' @ c) chunks)"
    "\<forall>bs. strip ?x = repeated_c1 bs \<longrightarrow>
       concat chunks = strip ?x \<and> (\<forall>c\<in>set chunks. c \<noteq> [] \<and> hd c \<in> set safe_split_chars)"
    by blast
  from c(2) h have d: "concat chunks = ?x"
    "\<forall>c\<in>set chunks. c \<noteq> [] \<and> hd c \<in> set safe_split_chars" by auto
  from c(1) e have ne: "chunks \<noteq> []" by auto
  from c(1) have c': "split_track_data ?x ''1'' MAX_LINE_LENGTH_MMLE
      = Some (map (\<lambda>c. ''1 '' @ c) chunks)" by simp
  from c' ne d have "\<exists>chunks. split_track_data ?x ''1'' MAX_LINE_LENGTH_MMLE
          = Some (map (\<lambda>c. ''1 '' @ c) chunks)
        \<and> chunks \<noteq> []
        \<and> concat chunks = ?x
        \<and> (\<forall>c\<in>set chunks. c \<noteq> [] \<and> hd c \<in> set safe_split_chars)"
    by blast
  with e have full: "split_track_data ?x ''1'' MAX_LINE_LENGTH_MMLE
     = Some [''1 c1c1c1c1c1c1c1c1c1c1c1c1c1c1c1c1c1c1c1c1c1c1c1c1c1c1c1c1c1c1c1c1c1c1c1c1c1c1c1c1'',
             ''1 c1'']
   \<and> (\<exists>chunks. split_track_data ?x ''1'' MAX_LINE_LENGTH_MMLE
          = Some (map (\<lambda>c. ''1 '' @ c) chunks)
        \<and> chunks \<noteq> []
        \<and> concat chunks = ?x
        \<and> (\<forall>c\<in>set chunks. c \<noteq> [] \<and> hd c \<in> set safe_split_chars))"
    by (rule conjI)
  have blank: "strip ''  '' = []" by code_simp
  from split_track_data_repeated_c1 [of "''  ''" "''1''"] blank
  have "split_track_data ''  '' ''1'' MAX_LINE_LENGTH_MMLE = Some []" by auto
  from this full show ?thesis by (rule conjI)
qed

theorem split_track_data_terminates_witness:
  "(\<exists>ls. split_track_data ''c4 d4'' ''1'' MAX_LINE_LENGTH_MMLE = Some ls \<and> ls = [''1 c4 d4'']
        \<and> (\<forall>l\<in>set ls. \<exists>chunk. chunk \<noteq> [] \<and> l = ''1 '' @ chunk))
   \<and> 1 \<le> choose_split_index ''c4 d4'' MAX_LINE_LENGTH_MMLE
   \<and> ''c4 d4'' \<noteq> []
   \<and> length (strip (drop (choose_split_index ''c4 d4'' MAX_LINE_LENGTH_MMLE) ''c4 d4''))
       < length ''c4 d4''"
proof -
  have e: "split_track_data ''c4 d4'' ''1'' MAX_LINE_LENGTH_MMLE = Some [''1 c4 d4'']"
    by code_simp
  show ?thesis
    using split_track_data_terminates [of "''c4 d4''" "''1''" "''c4 d4''"] e by auto
qed

section \<open>Properties of the command translator\<close>

lemma re_sub_detune: "re_sub match_detune [] prev s = remove_detune_commands s"
proof (induction s arbitrary: prev rule: remove_detune_commands.induct)
  case 1
  then show ?case by simp
next
  case (2 c cs)
  show ?case
  proof (cases "c = CHR ''D'' \<and> takeWhile isdigit (skip_sign cs) \<noteq> []")
    case True
    show ?thesis
    proof (cases "cs \<noteq> [] \<and> (hd cs = CHR ''-'' \<or> hd cs = CHR ''+'')")
      case sign: True
      then obtain x t where cs: "cs = x # t" "x = CHR ''-'' \<or> x = CHR ''+''" by (cases cs) auto
      with True have m: "match_detune prev (c # cs) = Some (Suc (Suc (length (takeWhile isdigit t))))"
        by (auto simp: match_detune_def skip_sign_def)
      have d: "drop (Suc (length (takeWhile isdigit t))) cs = dropWhile isdigit (skip_sign cs)"
        using cs by (auto simp: skip_sign_def dropWhile_eq_drop)
      show ?thesis using True "2.IH"(1) [OF True] m d by simp
    next
      case nosign: False
      then have sk: "skip_sign cs = cs" by (cases cs) (auto simp: skip_sign_def)
      with True nosign have m: "match_detune prev (c # cs) = Some (Suc (length (takeWhile isdigit cs)))"
        by (auto simp: match_detune_def)
      have d: "drop (length (takeWhile isdigit cs)) cs = dropWhile isdigit (skip_sign cs)"
        using sk by (simp add: dropWhile_eq_drop)
      show ?thesis using True "2.IH"(1) [OF True] m d by simp
    qed
  next
    case False
    then have m: "match_detune prev (c # cs) = None"
      by (cases cs) (auto simp: match_detune_def skip_sign_def)
    show ?thesis using False "2.IH"(2) [OF False] m by auto
  qed
qed

lemma re_sub_pan: "re_sub match_pan [] prev s = remove_pan_commands s"
proof (induction s arbitrary: prev rule: remove_pan_commands.induct)
  case 1
  then show ?case by simp
next
  case (2 c cs)
  show ?case
  proof (cases "c = CHR ''p'' \<and> takeWhile isdigit cs \<noteq> []")
    case True
    then have m: "match_pan prev (c # cs) = Some (Suc (length (takeWhile isdigit cs)))"
      by (simp add: match_pan_def)
    show ?thesis using True "2.IH"(1) [OF True] m by (simp add: dropWhile_eq_drop)
  next
    case False
    then have m: "match_pan prev (c # cs) = None" by (auto simp: match_pan_def)
    show ?thesis using False "2.IH"(2) [OF False] m by auto
  qed
qed

lemma isspace_not_isword: "isspace c \<Longrightarrow> \<not> isword c"
  by (auto simp: isspace_def whitespace_chars_def isword_def)

lemma re_sub_loop:
  "re_sub match_loop ''@L '' prev s =
     rewrite_loop_tokens_at_boundary (case prev of None \<Rightarrow> True | Some q \<Rightarrow> \<not> isword q) s"
proof (induction "case prev of None \<Rightarrow> True | Some q \<Rightarrow> \<not> isword q" s arbitrary: prev
        rule: rewrite_loop_tokens_at_boundary.induct)
  case 1
  then show ?case by simp
next
  case (2 c cs)
  let ?b = "case prev of None \<Rightarrow> True | Some q \<Rightarrow> \<not> isword q"
  show ?case
  proof (cases "c = CHR ''L'' \<and> ?b \<and> takeWhile isspace cs \<noteq> []")
    case True
    then have m: "match_loop prev (c # cs) = Some (Suc (length (takeWhile isspace cs)))"
      by (simp add: match_loop_def)
    let ?n = "length (takeWhile isspace cs)"
    from True have pos: "0 < ?n" by simp
    then have "(c # cs) ! ?n = cs ! (?n - 1)" by (simp add: nth_Cons')
    moreover have "?n - 1 < ?n" using pos by simp
    then have "cs ! (?n - 1) = takeWhile isspace cs ! (?n - 1)"
      by (metis takeWhile_nth)
    moreover have "takeWhile isspace cs ! (?n - 1) \<in> set (takeWhile isspace cs)"
      using pos by simp
    then have "isspace (takeWhile isspace cs ! (?n - 1))" by (rule set_takeWhileD [THEN conjunct2])
    ultimately have "isspace ((c # cs) ! ?n)" by simp
    then have nw: "\<not> isword ((c # cs) ! ?n)" by (rule isspace_not_isword)
    have "re_sub match_loop ''@L '' (Some ((c # cs) ! ?n)) (dropWhile isspace cs) =
          rewrite_loop_tokens_at_boundary True (dropWhile isspace cs)"
      using "2.hyps"(1) [of "Some ((c # cs) ! ?n)"] True nw by simp
    then show ?thesis using True m by (simp add: dropWhile_eq_drop)
  next
    case False
    then have m: "match_loop prev (c # cs) = None" by (auto simp: match_loop_def)
    have "re_sub match_loop ''@L '' (Some c) cs = rewrite_loop_tokens_at_boundary (\<not> isword c) cs"
      using "2.hyps"(2) [of "Some c"] False by simp
    then show ?thesis using False m by auto
  qed
qed

lemma re_sub_char: "re_sub (match_char x) [] prev s = filter (\<lambda>c. c \<noteq> x) s"
  by (induction s arbitrary: prev) (simp_all add: match_char_def)

lemma collapse_whitespace_space:
  "isspace c \<Longrightarrow> collapse_whitespace (c # cs) = CHR '' '' # collapse_whitespace (dropWhile isspace cs)"
  by (induction cs arbitrary: c) auto

lemma collapse_whitespace_other:
  "\<not> isspace c \<Longrightarrow> collapse_whitespace (c # cs) = c # collapse_whitespace cs"
  by (cases cs) auto

lemma re_sub_spaces: "re_sub match_spaces '' '' prev s = collapse_whitespace s"
proof (induction "length s" arbitrary: s prev rule: less_induct)
  case less
  show ?case
  proof (cases s)
    case Nil
    then show ?thesis by simp
  next
    case (Cons c cs)
    show ?thesis
    proof (cases "isspace c")
      case True
      then have m: "match_spaces prev (c # cs) = Some (Suc (length (takeWhile isspace cs)))"
        by (simp add: match_spaces_def)
      have "length (dropWhile isspace cs) < length s"
        using Cons length_dropWhile_le [of isspace cs] by simp
      from less [OF this] show ?thesis
        using Cons True m by (simp add: collapse_whitespace_space dropWhile_eq_drop)
    next
      case False
      then have m: "match_spaces prev (c # cs) = None" by (simp add: match_spaces_def)
      have "length cs < length s" using Cons by simp
      from less [OF this] show ?thesis
        using Cons False m by (simp add: collapse_whitespace_other)
    qed
  qed
qed

text \<open>
  C2, as stated.  The pipeline that rewrites every \<open>L\<close> followed by whitespace is not
  what the translator computes: the pattern of the source is \<open>\bL\s+\<close>, and an \<open>L\<close>
  that follows a letter, a digit or an underscore is left alone.
\<close>

theorem process_mus_commands_counterexample:
  "process_mus_commands ''o4L c'' = ''o4L c'' \<and> reference_pipeline ''o4L c'' = ''o4@L c''"
  by (simp add: process_mus_commands_def reference_pipeline_def match_spaces_def
        match_char_def match_loop_def match_pan_def match_detune_def isdigit_def isspace_def
        whitespace_chars_def isword_def skip_sign_def)

text \<open>
  C2, amended.  For every track string the translator equals the six steps in their
  order, the third step rewriting every \<open>L\<close> that stands at a word boundary and is
  followed by whitespace.
\<close>

theorem process_mus_commands_pipeline:
  "process_mus_commands track_data = reference_pipeline_at_boundary track_data"
  by (simp add: process_mus_commands_def reference_pipeline_at_boundary_def
        re_sub_detune re_sub_pan re_sub_loop re_sub_char re_sub_spaces)

theorem process_mus_commands_pipeline_witness:
  "process_mus_commands ''c4 D4 p1 d4'' = ''c4 d4''
   \<and> process_mus_commands ''L [cdeg]'' = ''@L cdeg''"
  using process_mus_commands_pipeline [of "''c4 D4 p1 d4''"]
    process_mus_commands_pipeline [of "''L [cdeg]''"]
  by (simp add: reference_pipeline_at_boundary_def isdigit_def isspace_def whitespace_chars_def
        isword_def skip_sign_def)

section \<open>Properties of the tempo formula\<close>

lemma py_round_bounds: "\<lfloor>x\<rfloor> \<le> py_round x \<and> py_round x \<le> \<lfloor>x\<rfloor> + 1"
  by (simp add: py_round_def)

lemma py_round_mono:
  assumes "x \<le> y"
  shows "py_round x \<le> py_round y"
proof (cases "\<lfloor>x\<rfloor> = \<lfloor>y\<rfloor>")
  case True
  with assms have "x - of_int \<lfloor>x\<rfloor> \<le> y - of_int \<lfloor>y\<rfloor>" by simp
  with True show ?thesis by (auto simp: py_round_def)
next
  case False
  with assms have "\<lfloor>x\<rfloor> < \<lfloor>y\<rfloor>" using floor_mono [OF assms] by linarith
  with py_round_bounds [of x] py_round_bounds [of y] show ?thesis by linarith
qed

lemma quotient_mono:
  assumes "1 \<le> s" "s \<le> t" "t \<le> (255::int)"
  shows "(60 * 4000000) / real_of_int (40 * 1024 * (256 - s))
           \<le> (60 * 4000000) / real_of_int (40 * 1024 * (256 - t))"
proof -
  have "0 < real_of_int (40 * 1024 * (256 - t))" using assms by simp
  moreover have "real_of_int (40 * 1024 * (256 - t)) \<le> real_of_int (40 * 1024 * (256 - s))"
    using assms by simp
  ultimately show ?thesis by (intro divide_left_mono) simp_all
qed

text \<open>
  The distance of the exact quotient to every tie of \<open>round\<close>, for the tempo values the
  guard admits.
\<close>

lemma quotient_far_from_tie:
  assumes "1 \<le> t" "t \<le> (255::int)"
  shows "\<bar>(60 * 4000000) / real_of_int (40 * 1024 * (256 - t)) - (of_int n + 1 / 2)\<bar> \<ge> 1 / 2040"
proof -
  let ?k = "256 - t"
  have k: "0 < ?k" "?k \<le> 255" using assms by simp_all
  have q: "(60 * 4000000) / real_of_int (40 * 1024 * ?k) = 46875 / (8 * real_of_int ?k)"
    using k by (simp add: field_simps)
  have "46875 / (8 * real_of_int ?k) - (of_int n + 1 / 2)
          = real_of_int (46875 - 4 * ?k * (2 * n + 1)) / (8 * real_of_int ?k)"
    using k by (simp add: field_simps)
  moreover have "46875 - 4 * ?k * (2 * n + 1) \<noteq> 0"
  proof
    assume a: "46875 - 4 * ?k * (2 * n + 1) = 0"
    define m where "m = ?k * (2 * n + 1)"
    have "4 * ?k * (2 * n + 1) = 4 * m" by (simp add: m_def)
    with a have "(46875::int) = 4 * m" by simp
    then show False by presburger
  qed
  then have "1 \<le> \<bar>46875 - 4 * ?k * (2 * n + 1)\<bar>" by linarith
  then have "1 \<le> \<bar>real_of_int (46875 - 4 * ?k * (2 * n + 1))\<bar>"
    by (metis of_int_1_le_iff of_int_abs)
  ultimately have "\<bar>46875 / (8 * real_of_int ?k) - (of_int n + 1 / 2)\<bar>
       \<ge> 1 / (8 * real_of_int ?k)"
    using k by (simp add: abs_divide divide_right_mono del: of_int_diff of_int_mult)
  moreover have "1 / (8 * real_of_int ?k) \<ge> 1 / 2040"
    using k by (simp add: field_simps)
  ultimately have "1 / 2040 \<le> \<bar>46875 / (8 * real_of_int ?k) - (of_int n + 1 / 2)\<bar>"
    by (rule order_trans [rotated])
  then show ?thesis by (simp only: q)
qed

text \<open>
  So the rounding does not depend on the last digits of the quotient: every number
  closer than \<open>1 / 2040\<close> to the exact quotient, the double of the source among them,
  rounds to the BPM of the model.
\<close>

lemma py_round_near:
  assumes "of_int n - 1 / 2 < x" "x < of_int n + 1 / 2"
  shows "py_round x = n"
proof (cases "of_int n \<le> x")
  case True
  with assms have f: "\<lfloor>x\<rfloor> = n" by linarith
  with assms show ?thesis by (simp add: py_round_def)
next
  case False
  with assms have f: "\<lfloor>x\<rfloor> = n - 1" by linarith
  with assms False show ?thesis by (simp add: py_round_def)
qed

lemma py_round_dist: "\<bar>x - of_int (py_round x)\<bar> \<le> 1 / 2"
proof -
  have "of_int \<lfloor>x\<rfloor> \<le> x" "x < of_int \<lfloor>x\<rfloor> + 1" by linarith+
  then show ?thesis by (auto simp: py_round_def abs_le_iff)
qed

lemma py_round_stable:
  assumes far: "\<And>n. d \<le> \<bar>q - (of_int n + 1 / 2)\<bar>" and near: "\<bar>x - q\<bar> < d"
  shows "py_round x = py_round q"
proof -
  let ?n = "py_round q"
  from py_round_dist [of q] have b: "of_int ?n - 1 / 2 \<le> q" "q \<le> of_int ?n + 1 / 2"
    by linarith+
  from far [of ?n] b(2) have u: "q \<le> of_int ?n + 1 / 2 - d" by linarith
  from far [of "?n - 1"] b(1) have l: "of_int ?n - 1 / 2 + d \<le> q" by simp
  from near u l have "of_int ?n - 1 / 2 < x" "x < of_int ?n + 1 / 2" by linarith+
  then show ?thesis by (rule py_round_near)
qed

lemma bpm_rounding_stable:
  assumes "1 \<le> t" "t \<le> 255"
    and "\<bar>x - (60 * 4000000) / real_of_int (40 * 1024 * (256 - t))\<bar> < 1 / 2040"
  shows "mus_tempo_to_bpm t = Inr (py_round x)"
proof -
  have "py_round x = py_round ((60 * 4000000) / real_of_int (40 * 1024 * (256 - t)))"
    using quotient_far_from_tie [OF assms(1,2)] assms(3) by (rule py_round_stable)
  with assms(1,2) show ?thesis by (simp add: mus_tempo_to_bpm_def)
qed

text \<open>
  C5, as stated.  A higher tempo value does not always give a higher BPM: the tempo
  values 1, 2 and 3 all give 23.
\<close>

theorem mus_tempo_to_bpm_strict_counterexample:
  "(1::int) < 2 \<and> (2::int) \<le> 255
   \<and> mus_tempo_to_bpm 1 = Inr 23 \<and> mus_tempo_to_bpm 2 = Inr 23 \<and> mus_tempo_to_bpm 3 = Inr 23
   \<and> \<not> (23::int) < 23"
  by (simp add: mus_tempo_to_bpm_def py_round_def)

text \<open>
  C5, amended.  The BPM is a function of the tempo value alone; for tempo values from 1
  to 255 a higher tempo value never gives a lower BPM; the tempo value 220 gives 163.
\<close>

theorem mus_tempo_to_bpm_monotone:
  "(1 \<le> s \<and> s \<le> t \<and> t \<le> 255 \<longrightarrow>
      (\<exists>a b. mus_tempo_to_bpm s = Inr a \<and> mus_tempo_to_bpm t = Inr b \<and> a \<le> b))
   \<and> mus_tempo_to_bpm 220 = Inr 163"
proof -
  have "mus_tempo_to_bpm 220 = Inr 163"
    by (simp add: mus_tempo_to_bpm_def py_round_def)
  moreover have "\<exists>a b. mus_tempo_to_bpm s = Inr a \<and> mus_tempo_to_bpm t = Inr b \<and> a \<le> b"
    if "1 \<le> s \<and> s \<le> t \<and> t \<le> 255"
    using that py_round_mono [OF quotient_mono [of s t]]
    by (simp add: mus_tempo_to_bpm_def)
  ultimately show ?thesis by blast
qed

theorem mus_tempo_to_bpm_monotone_witness:
  "mus_tempo_to_bpm 100 = Inr 38 \<and> mus_tempo_to_bpm 220 = Inr 163 \<and> (38::int) \<le> 163
   \<and> (1::int) \<le> 100 \<and> (100::int) \<le> 220 \<and> (220::int) \<le> 255"
  using mus_tempo_to_bpm_monotone [of 100 220]
  by (simp add: mus_tempo_to_bpm_def py_round_def)

section \<open>Properties of the parser\<close>

lemma upper_startswith_hd:
  "upper_startswith s (k # ks) \<Longrightarrow> \<exists>c t. s = c # t \<and> ascii_upper c = k"
  by (cases s) (auto simp: upper_startswith_def)

lemma title_line_not_comment: "upper_startswith s ''#TITLE'' \<Longrightarrow> \<not> is_comment_or_blank s"
  by (drule upper_startswith_hd) (auto simp: is_comment_or_blank_def ascii_upper_def)

lemma composer_line_not_comment: "upper_startswith s ''#COMPOSER'' \<Longrightarrow> \<not> is_comment_or_blank s"
  by (drule upper_startswith_hd) (auto simp: is_comment_or_blank_def ascii_upper_def)

lemma upper_startswith_second:
  "upper_startswith s (k # k' # ks) \<Longrightarrow> \<exists>c c' t. s = c # c' # t \<and> ascii_upper c' = k'"
  by (cases s; cases "tl s") (auto simp: upper_startswith_def)

lemma title_not_composer: "upper_startswith s ''#TITLE'' \<Longrightarrow> \<not> upper_startswith s ''#COMPOSER''"
  by (auto dest!: upper_startswith_second)

lemma save_track_data_fields:
  "title (save_track_data st) = title (result st)"
  "composer (save_track_data st) = composer (result st)"
  "mus_tempo (save_track_data st) = mus_tempo (result st)"
  "track_instruments (save_track_data st) = track_instruments (result st)"
  "voice_definitions (save_track_data st) = voice_definitions (result st)"
  by (simp_all add: save_track_data_def split: option.splits)

lemma store_voice_definition_fields:
  "title (store_voice_definition l res) = title res"
  "composer (store_voice_definition l res) = composer res"
  "mus_tempo (store_voice_definition l res) = mus_tempo res"
  "tracks (store_voice_definition l res) = tracks res"
  "track_instruments (store_voice_definition l res) = track_instruments res"
  by (simp_all add: store_voice_definition_def Let_def)

lemma parse_track_line_headers:
  "title (result (parse_track_line st c d)) = title (result st)"
  "composer (result (parse_track_line st c d)) = composer (result st)"
  by (simp_all add: parse_track_line_def save_track_data_fields split: prod.splits)

lemma parse_line_title:
  "title (result (parse_line st l)) =
     (if is_title_line l then header_value ''#TITLE'' l else title (result st))"
  by (auto simp: parse_line_def is_title_line_def header_value_def title_line_not_comment
        store_voice_definition_fields parse_track_line_headers)

lemma parse_line_composer:
  "composer (result (parse_line st l)) =
     (if is_composer_line l then header_value ''#COMPOSER'' l else composer (result st))"
  by (auto simp: parse_line_def is_composer_line_def header_value_def composer_line_not_comment
        title_not_composer store_voice_definition_fields parse_track_line_headers)

lemma foldl_parse_line_title:
  "title (result (foldl parse_line st ls)) =
     (if filter is_title_line ls = [] then title (result st)
      else header_value ''#TITLE'' (last (filter is_title_line ls)))"
  by (induction ls rule: rev_induct) (simp_all add: parse_line_title)

lemma foldl_parse_line_composer:
  "composer (result (foldl parse_line st ls)) =
     (if filter is_composer_line ls = [] then composer (result st)
      else header_value ''#COMPOSER'' (last (filter is_composer_line ls)))"
  by (induction ls rule: rev_induct) (simp_all add: parse_line_composer)

text \<open>
  C9.  The parsed title is the value of the last \<open>#TITLE\<close> line of the text, and the
  parsed composer the value of the last \<open>#COMPOSER\<close> line; without such a line the field
  is empty.
\<close>

theorem parse_mus_file_headers_last_wins:
  "title (parse_mus_file content) =
     (if filter is_title_line (splitlines content) = [] then []
      else header_value ''#TITLE'' (last (filter is_title_line (splitlines content))))
   \<and> composer (parse_mus_file content) =
     (if filter is_composer_line (splitlines content) = [] then []
      else header_value ''#COMPOSER'' (last (filter is_composer_line (splitlines content))))"
  by (simp add: parse_mus_file_def save_track_data_fields foldl_parse_line_title
        foldl_parse_line_composer initial_parse_state_def)

theorem parse_mus_file_headers_last_wins_witness:
  "title (parse_mus_file
       ''#TITLE first\<newline>#Composer one\<newline>#title  second \<newline>#COMPOSER two'') = ''second''
   \<and> composer (parse_mus_file
       ''#TITLE first\<newline>#Composer one\<newline>#title  second \<newline>#COMPOSER two'') = ''two''"
proof -
  let ?c = "''#TITLE first\<newline>#Composer one\<newline>#title  second \<newline>#COMPOSER two''"
  have t: "filter is_title_line (splitlines ?c) = [''#TITLE first'', ''#title  second '']"
    by code_simp
  have c: "filter is_composer_line (splitlines ?c) = [''#Composer one'', ''#COMPOSER two'']"
    by code_simp
  have tv: "header_value ''#TITLE'' ''#title  second '' = ''second''"
    by code_simp
  have cv: "header_value ''#COMPOSER'' ''#COMPOSER two'' = ''two''"
    by code_simp
  show ?thesis
    using parse_mus_file_headers_last_wins [of ?c] by (simp add: t c tv cv)
qed

text \<open>The last branch of the cascade, under the tests of the source.\<close>

lemma parse_line_fallthrough:
  assumes "\<not> is_comment_or_blank (strip line_raw)"
    and "\<not> upper_startswith (strip line_raw) ''#TITLE''"
    and "\<not> upper_startswith (strip line_raw) ''#COMPOSER''"
    and "\<not> is_voice_definition_line (strip line_raw)"
    and "\<not> line_starts_with_track_char (strip line_raw)"
  shows "parse_line st line_raw =
     (if current_track st \<noteq> None
      then st\<lparr>track_data_list_for_current_track :=
               track_data_list_for_current_track st @ [strip line_raw]\<rparr>
      else st)"
  using assms by (simp add: parse_line_def is_comment_or_blank_def)

text \<open>
  The tests of the source, made on the trimmed line, in terms of the line as it stands.
\<close>

lemma dropWhile_isspace_hd: "dropWhile isspace l = c # t \<Longrightarrow> \<not> isspace c"
  using hd_dropWhile [of isspace l] by (cases "dropWhile isspace l = []") auto

lemma strip_blank: "dropWhile isspace l = [] \<Longrightarrow> strip l = []"
  unfolding strip_def lstrip_def rstrip_def by (simp only:) simp

lemma strip_nonblank:
  assumes "dropWhile isspace l = c # t"
  shows "strip l = c # rev (dropWhile isspace (rev t))"
proof -
  from assms have "\<not> isspace c" by (rule dropWhile_isspace_hd)
  then have "dropWhile isspace (rev t @ [c]) = dropWhile isspace (rev t) @ [c]"
    by (rule dropWhile_append3)
  then have "rev (dropWhile isspace (rev (c # t))) = c # rev (dropWhile isspace (rev t))"
    by simp
  then show ?thesis unfolding strip_def lstrip_def rstrip_def by (simp only: assms)
qed

lemma first_nonspace_strip:
  "first_nonspace l = (case strip l of [] \<Rightarrow> None | c # t \<Rightarrow> Some c)"
proof (cases "dropWhile isspace l")
  case Nil
  then have "first_nonspace l = None" by (simp only: first_nonspace_def list.case)
  with strip_blank [OF Nil] show ?thesis by simp
next
  case (Cons c t)
  then have "first_nonspace l = Some c" by (simp only: first_nonspace_def list.case)
  with strip_nonblank [OF Cons] show ?thesis by simp
qed

lemma set_strip_nonspace: "\<not> isspace x \<Longrightarrow> x \<in> set (strip l) \<longleftrightarrow> x \<in> set l"
proof -
  assume x: "\<not> isspace x"
  then have "x \<in> set (strip l) \<longleftrightarrow> x \<in> set (remove_whitespace (strip l))"
    by (simp add: remove_whitespace_def)
  also have "\<dots> \<longleftrightarrow> x \<in> set (remove_whitespace l)" by (simp only: remove_whitespace_strip)
  also from x have "\<dots> \<longleftrightarrow> x \<in> set l" by (simp add: remove_whitespace_def)
  finally show ?thesis .
qed

lemma continuation_line_tests:
  assumes "is_continuation_line l"
  shows "\<not> is_comment_or_blank (strip l)"
    and "\<not> upper_startswith (strip l) ''#TITLE''"
    and "\<not> upper_startswith (strip l) ''#COMPOSER''"
    and "\<not> is_voice_definition_line (strip l)"
    and "\<not> line_starts_with_track_char (strip l)"
proof -
  from assms obtain c where c: "first_nonspace l = Some c"
    by (auto simp: is_continuation_line_def split: option.splits)
  then obtain t where s: "strip l = c # t"
    by (auto simp: first_nonspace_strip split: list.splits)
  from assms c have p: "c \<noteq> CHR '';''" "c \<noteq> CHR ''*''" "\<not> is_title_line l" "\<not> is_composer_line l"
    "\<not> (c = CHR ''@'' \<and> CHR ''='' \<in> set l \<and> CHR ''{'' \<in> set l \<and> CHR ''}'' \<in> set l)"
    "c \<notin> set VALID_MUS_TRACK_CHARS"
    by (simp_all add: is_continuation_line_def)
  from s p(1,2) show "\<not> is_comment_or_blank (strip l)" by (simp add: is_comment_or_blank_def)
  from p(3) show "\<not> upper_startswith (strip l) ''#TITLE''" by (simp add: is_title_line_def)
  from p(4) show "\<not> upper_startswith (strip l) ''#COMPOSER''" by (simp add: is_composer_line_def)
  have ns: "\<not> isspace (CHR ''='')" "\<not> isspace (CHR ''{'')" "\<not> isspace (CHR ''}'')"
    by (simp_all add: isspace_def whitespace_chars_def)
  from p(5) s show "\<not> is_voice_definition_line (strip l)"
    using set_strip_nonspace [OF ns(1), of l] set_strip_nonspace [OF ns(2), of l]
      set_strip_nonspace [OF ns(3), of l]
    by (auto simp: is_voice_definition_line_def)
  from p(6) s show "\<not> line_starts_with_track_char (strip l)"
    by (simp add: line_starts_with_track_char_def)
qed

lemma parse_line_continuation_step:
  "is_continuation_line l \<Longrightarrow>
     parse_line st l =
       (if current_track st = None then st
        else st\<lparr>track_data_list_for_current_track :=
                 track_data_list_for_current_track st @ [strip l]\<rparr>)"
  using parse_line_fallthrough [OF continuation_line_tests, of l st] by simp

text \<open>
  C8, as stated.  With a track open, the line \<open>@1 = x{}\<close> is not blank, no comment, no
  header, no voice definition (its body is not delimited by braces) and no track line,
  and the parser drops it: the voice-definition branch of the source takes every line
  that starts with \<open>@\<close> and holds \<open>=\<close>, \<open>{\<close> and \<open>}\<close>, stores nothing for this one and
  goes on to the next line.  And a continuation line is appended trimmed of the
  whitespace around it, not as it stands.
\<close>

theorem parse_line_continuation_counterexample:
  "is_continuation_line_as_stated ''@1 = x{}''
   \<and> parse_line (initial_parse_state\<lparr>current_track := Some (CHR ''A''),
         track_data_list_for_current_track := [''c4'']\<rparr>) ''@1 = x{}''
       = initial_parse_state\<lparr>current_track := Some (CHR ''A''),
         track_data_list_for_current_track := [''c4'']\<rparr>
   \<and> is_continuation_line_as_stated ''  o4  ''
   \<and> track_data_list_for_current_track
        (parse_line (initial_parse_state\<lparr>current_track := Some (CHR ''A''),
           track_data_list_for_current_track := [''c4'']\<rparr>) ''  o4  '')
       = [''c4'', ''o4'']"
  by code_simp

text \<open>
  C8, amended.  For every parser state and every run of lines each of which is not
  blank, no comment, no header, no track line and not a line that starts with \<open>@\<close> and
  holds \<open>=\<close>, \<open>{\<close> and \<open>}\<close>: when no track is open the lines are discarded and the state
  stays as it is; when a track is open the lines, each trimmed of the whitespace around
  it and otherwise unchanged, are appended in their order to the accumulator of that
  track, and nothing else changes.
\<close>

theorem parse_line_continuation:
  "\<forall>line_raw\<in>set ls. is_continuation_line line_raw \<Longrightarrow>
     foldl parse_line st ls =
       (if current_track st = None then st
        else st\<lparr>track_data_list_for_current_track :=
                 track_data_list_for_current_track st @ map strip ls\<rparr>)"
proof (induction ls arbitrary: st)
  case Nil
  then show ?case by simp
next
  case (Cons l ls)
  then have l: "is_continuation_line l" and ls: "\<forall>x\<in>set ls. is_continuation_line x"
    by simp_all
  show ?case
  proof (cases "current_track st = None")
    case True
    with l have "parse_line st l = st" by (simp add: parse_line_continuation_step)
    with Cons.IH [OF ls, of st] True show ?thesis by simp
  next
    case False
    let ?st = "st\<lparr>track_data_list_for_current_track :=
                 track_data_list_for_current_track st @ [strip l]\<rparr>"
    from l False have "parse_line st l = ?st" by (simp add: parse_line_continuation_step)
    with Cons.IH [OF ls, of ?st] False show ?thesis by simp
  qed
qed

theorem parse_line_continuation_witness:
  "is_continuation_line ''  o4 e4 @t9 '' \<and> is_continuation_line ''@1 c''
   \<and> is_continuation_line ''x = {y}''
   \<and> foldl parse_line
        (initial_parse_state\<lparr>current_track := Some (CHR ''A''),
           track_data_list_for_current_track := [''c4'']\<rparr>)
        [''  o4 e4 @t9 '', ''@1 c'', ''x = {y}'']
     = initial_parse_state\<lparr>current_track := Some (CHR ''A''),
           track_data_list_for_current_track := [''c4'', ''o4 e4 @t9'', ''@1 c'', ''x = {y}'']\<rparr>
   \<and> foldl parse_line initial_parse_state [''  o4 e4 @t9 '', ''@1 c'', ''x = {y}'']
     = initial_parse_state"
proof -
  have h: "\<forall>line_raw\<in>set [''  o4 e4 @t9 '', ''@1 c'', ''x = {y}'']. is_continuation_line line_raw"
    by code_simp
  have m: "strip ''  o4 e4 @t9 '' = ''o4 e4 @t9''" "strip ''@1 c'' = ''@1 c''"
    "strip ''x = {y}'' = ''x = {y}''"
    by code_simp+
  from parse_line_continuation [OF h,
      of "initial_parse_state\<lparr>current_track := Some (CHR ''A''),
           track_data_list_for_current_track := [''c4'']\<rparr>"]
    parse_line_continuation [OF h, of initial_parse_state] h
  show ?thesis by (simp del: foldl_Cons foldl_Nil add: m initial_parse_state_def)
qed
section \<open>Properties of the emitter\<close>

lemma save_track_data_keys:
  "track_keys_valid st \<Longrightarrow> fst ` set (tracks (save_track_data st)) \<subseteq> set VALID_MUS_TRACK_CHARS"
  by (auto simp: track_keys_valid_def save_track_data_def dom_update split: option.splits)

lemma parse_track_line_keys:
  "track_keys_valid st \<Longrightarrow> c \<in> set VALID_MUS_TRACK_CHARS \<Longrightarrow>
     track_keys_valid (parse_track_line st c d)"
  using save_track_data_keys [of st]
  by (auto simp: parse_track_line_def track_keys_valid_def split: prod.splits)

lemma store_voice_definition_tracks: "tracks (store_voice_definition l res) = tracks res"
  by (simp add: store_voice_definition_def Let_def)

lemma track_keys_valid_updates:
  "track_keys_valid st \<Longrightarrow> track_keys_valid (st\<lparr>result := (result st)\<lparr>title := x\<rparr>\<rparr>)"
  "track_keys_valid st \<Longrightarrow> track_keys_valid (st\<lparr>result := (result st)\<lparr>composer := x\<rparr>\<rparr>)"
  "track_keys_valid st \<Longrightarrow>
     track_keys_valid (st\<lparr>result := store_voice_definition l (result st)\<rparr>)"
  "track_keys_valid st \<Longrightarrow> track_keys_valid (st\<lparr>track_data_list_for_current_track := xs\<rparr>)"
  by (simp_all add: track_keys_valid_def store_voice_definition_tracks)

lemma parse_line_keys: "track_keys_valid st \<Longrightarrow> track_keys_valid (parse_line st l)"
proof -
  assume inv: "track_keys_valid st"
  have "track_keys_valid (parse_track_line st (hd (strip l)) (tl (strip l)))"
    if "line_starts_with_track_char (strip l)"
  proof -
    from that have "hd (strip l) \<in> set VALID_MUS_TRACK_CHARS"
      by (cases "strip l") (simp_all add: line_starts_with_track_char_def)
    with inv show ?thesis by (rule parse_track_line_keys)
  qed
  with inv show ?thesis
    by (simp add: parse_line_def track_keys_valid_updates)
qed

lemma foldl_parse_line_keys:
  "track_keys_valid st \<Longrightarrow> track_keys_valid (foldl parse_line st ls)"
  by (induction ls arbitrary: st) (simp_all add: parse_line_keys)

lemma parse_mus_file_keys:
  "fst ` set (tracks (parse_mus_file content)) \<subseteq> set VALID_MUS_TRACK_CHARS"
proof -
  have "track_keys_valid initial_parse_state"
    by (simp add: track_keys_valid_def initial_parse_state_def)
  then have "track_keys_valid (foldl parse_line initial_parse_state (splitlines content))"
    by (rule foldl_parse_line_keys)
  then show ?thesis unfolding parse_mus_file_def by (rule save_track_data_keys)
qed

lemma ndp_track_num_valid:
  assumes "k \<in> set VALID_MUS_TRACK_CHARS"
  shows "\<exists>d. ndp_track_num k = Some [d] \<and> d \<in> set ''12345678''"
proof -
  from assms have "k = CHR ''A'' \<or> k = CHR ''B'' \<or> k = CHR ''C'' \<or> k = CHR ''D''
      \<or> k = CHR ''E'' \<or> k = CHR ''F'' \<or> k = CHR ''G'' \<or> k = CHR ''H''"
    by (simp add: VALID_MUS_TRACK_CHARS_def)
  then show ?thesis
    by (elim disjE; simp add: ndp_track_num_def MUS_TO_NDP_TRACK_MAP_def ascii_upper_def)
qed

lemma processed_tracks_output_total:
  "set keys \<subseteq> fst ` set trks \<Longrightarrow> set keys \<subseteq> set VALID_MUS_TRACK_CHARS \<Longrightarrow>
     \<exists>ls. processed_tracks_output trks keys = Some ls"
proof (induction keys)
  case Nil
  then show ?case by simp
next
  case (Cons k keys)
  from Cons.prems(1) obtain v where v: "map_of trks k = Some v"
    using map_of_eq_None_iff [of trks k] by auto
  from Cons.prems(2) obtain d where d: "ndp_track_num k = Some [d]"
    using ndp_track_num_valid [of k] by auto
  have "0 < MAX_LINE_LENGTH_MMLE" by (simp add: MAX_LINE_LENGTH_MMLE_def)
  from split_track_data_wrapped [OF this, of "process_mus_commands v" "[d]"]
  obtain ls where ls: "split_track_data (process_mus_commands v) [d] MAX_LINE_LENGTH_MMLE = Some ls"
    by blast
  from Cons obtain rest where "processed_tracks_output trks keys = Some rest" by auto
  with v d ls show ?case by simp
qed

lemma mml_output_parts_shape:
  assumes "fst ` set (tracks pd) \<subseteq> set VALID_MUS_TRACK_CHARS"
  shows "\<exists>rest. mml_output_parts (pd\<lparr>mus_tempo := None\<rparr>) = Some (header_parts pd @ [] # rest)
           \<and> mml_output_parts pd = Some (header_parts pd @ tempo_command_parts pd @ [] # rest)"
proof -
  from assms obtain ls where
    "processed_tracks_output (tracks pd) (sort (map fst (tracks pd))) = Some ls"
    using processed_tracks_output_total [of "sort (map fst (tracks pd))" "tracks pd"] by auto
  then show ?thesis
    by (simp add: mml_output_parts_def header_parts_def tempo_command_parts_def
          voice_definition_parts_def track_instrument_parts_def)
qed

lemma active_ndp_tracks_nonempty:
  assumes "fst ` set (tracks pd) \<subseteq> set VALID_MUS_TRACK_CHARS" "tracks pd \<noteq> []"
  shows "active_ndp_tracks_for_tempo pd \<noteq> []"
proof -
  from assms(2) have "set (sort (map fst (tracks pd))) \<noteq> {}" by simp
  then obtain k ks where ks: "sort (map fst (tracks pd)) = k # ks"
    by (cases "sort (map fst (tracks pd))") simp_all
  then have "k \<in> set (sort (map fst (tracks pd)))" by simp
  with assms(1) have "k \<in> set VALID_MUS_TRACK_CHARS" by auto
  then obtain d where "ndp_track_num k = Some [d]" using ndp_track_num_valid by blast
  with ks show ?thesis by (simp add: active_ndp_tracks_for_tempo_def)
qed

lemma map_filter_singletons:
  "(\<And>k. k \<in> set ks \<Longrightarrow> \<exists>d. f k = Some [d] \<and> d \<in> D) \<Longrightarrow>
     \<forall>x\<in>set (List.map_filter f ks). set x \<subseteq> D"
proof (induction ks)
  case Nil
  then show ?case by simp
next
  case (Cons k ks)
  from Cons.prems [of k] obtain d where d: "f k = Some [d]" "d \<in> D" by auto
  from Cons have "\<forall>x\<in>set (List.map_filter f ks). set x \<subseteq> D" by simp
  with d show ?case by simp
qed

lemma map_filter_ndp_digits:
  "set ks \<subseteq> set VALID_MUS_TRACK_CHARS \<Longrightarrow>
     \<forall>x\<in>set (List.map_filter ndp_track_num ks). set x \<subseteq> set ''12345678''"
proof (rule map_filter_singletons)
  fix k
  assume "set ks \<subseteq> set VALID_MUS_TRACK_CHARS" and "k \<in> set ks"
  then have "k \<in> set VALID_MUS_TRACK_CHARS" by blast
  then show "\<exists>d. ndp_track_num k = Some [d] \<and> d \<in> set ''12345678''"
    by (rule ndp_track_num_valid)
qed

lemma active_ndp_tracks_digits:
  assumes "fst ` set (tracks pd) \<subseteq> set VALID_MUS_TRACK_CHARS"
  shows "set (concat (sort_key int_of_digits (active_ndp_tracks_for_tempo pd))) \<subseteq> set ''12345678''"
proof -
  from assms have "set (sort (map fst (tracks pd))) \<subseteq> set VALID_MUS_TRACK_CHARS" by simp
  from map_filter_ndp_digits [OF this]
  have "\<forall>x\<in>set (active_ndp_tracks_for_tempo pd). set x \<subseteq> set ''12345678''"
    by (simp only: active_ndp_tracks_for_tempo_def)
  then have "\<forall>x\<in>set (sort_key int_of_digits (active_ndp_tracks_for_tempo pd)). set x \<subseteq> set ''12345678''"
    by (simp only: set_sort)
  then show ?thesis unfolding set_concat by blast
qed

lemma str_join_append:
  "xs \<noteq> [] \<Longrightarrow> ys \<noteq> [] \<Longrightarrow> str_join sep (xs @ ys) = str_join sep xs @ sep @ str_join sep ys"
proof (induction sep xs rule: str_join.induct)
  case (2 sep x)
  then show ?case by (cases ys) simp_all
qed simp_all

lemma lstrip_append_nonspace: "a \<noteq> [] \<Longrightarrow> \<not> isspace (hd a) \<Longrightarrow> lstrip (a @ b) = a @ b"
  by (cases a) (simp_all add: lstrip_def)

lemma rstrip_append_nonspace:
  assumes "a \<noteq> []" "\<not> isspace (last a)"
  shows "rstrip (a @ b) = a @ rstrip b"
proof -
  from assms have d: "dropWhile isspace (rev a) = rev a"
    by (cases "rev a") (simp_all add: last_rev [symmetric] hd_rev)
  show ?thesis
  proof (cases "\<forall>x\<in>set (rev b). isspace x")
    case True
    then have "dropWhile isspace (rev b) = []" by simp
    with True d show ?thesis by (simp add: rstrip_def dropWhile_append)
  next
    case False
    then show ?thesis by (auto simp: rstrip_def dropWhile_append)
  qed
qed

lemma strip_append_nonspace:
  "a \<noteq> [] \<Longrightarrow> \<not> isspace (hd a) \<Longrightarrow> \<not> isspace (last a) \<Longrightarrow> strip (a @ b) = a @ rstrip b"
  by (simp add: strip_def lstrip_append_nonspace rstrip_append_nonspace)

lemma digit_char_nonspace: "k < 10 \<Longrightarrow> \<not> isspace (''0123456789'' ! k)"
proof -
  assume "k < 10"
  then have "''0123456789'' ! k \<in> set ''0123456789''" by (intro nth_mem) simp
  moreover have "\<forall>c\<in>set ''0123456789''. \<not> isspace c"
    by (simp add: isspace_def whitespace_chars_def)
  ultimately show ?thesis by blast
qed

lemma str_nat_last: "str_nat n \<noteq> [] \<and> \<not> isspace (last (str_nat n))"
  by (subst (1 2) str_nat.simps) (simp add: digit_char_nonspace)

lemma str_int_last: "str_int i \<noteq> [] \<and> \<not> isspace (last (str_int i))"
  using str_nat_last by (simp add: str_int_def)

lemma header_text_ends:
  "str_join [CHR 0x0A] (header_parts pd) \<noteq> []
   \<and> \<not> isspace (hd (str_join [CHR 0x0A] (header_parts pd)))
   \<and> \<not> isspace (last (str_join [CHR 0x0A] (header_parts pd)))"
  using str_int_last [of NDP_TIMEBASE]
  by (simp add: header_parts_def isspace_def whitespace_chars_def)

lemma final_mml_content_without:
  "final_mml_content (header_parts pd @ [] # rest) =
     str_join [CHR 0x0A] (header_parts pd)
       @ rstrip ([CHR 0x0A] @ str_join [CHR 0x0A] ([] # rest)) @ [CHR 0x0A]"
proof -
  let ?h = "str_join [CHR 0x0A] (header_parts pd)"
  have "header_parts pd \<noteq> []" by (simp add: header_parts_def)
  then have "str_join [CHR 0x0A] (header_parts pd @ [] # rest)
       = ?h @ ([CHR 0x0A] @ str_join [CHR 0x0A] ([] # rest))"
    by (simp add: str_join_append)
  moreover have "strip (?h @ ([CHR 0x0A] @ str_join [CHR 0x0A] ([] # rest)))
       = ?h @ rstrip ([CHR 0x0A] @ str_join [CHR 0x0A] ([] # rest))"
    using header_text_ends [of pd] by (intro strip_append_nonspace) simp_all
  ultimately show ?thesis
    using header_text_ends [of pd] by (simp add: final_mml_content_def)
qed

lemma final_mml_content_with:
  assumes "line \<noteq> []" "\<not> isspace (last line)"
  shows "final_mml_content (header_parts pd @ [line] @ [] # rest) =
     str_join [CHR 0x0A] (header_parts pd) @ [CHR 0x0A] @ line
       @ rstrip ([CHR 0x0A] @ str_join [CHR 0x0A] ([] # rest)) @ [CHR 0x0A]"
proof -
  let ?h = "str_join [CHR 0x0A] (header_parts pd)"
  let ?a = "?h @ [CHR 0x0A] @ line"
  have ne: "header_parts pd \<noteq> []" by (simp add: header_parts_def)
  have "str_join [CHR 0x0A] ([line] @ [] # rest) = line @ [CHR 0x0A] @ str_join [CHR 0x0A] ([] # rest)"
    by (subst str_join_append) simp_all
  with ne have j: "str_join [CHR 0x0A] (header_parts pd @ [line] @ [] # rest)
       = ?a @ ([CHR 0x0A] @ str_join [CHR 0x0A] ([] # rest))"
    by (subst str_join_append) simp_all
  have a: "?a \<noteq> []" "\<not> isspace (hd ?a)" "\<not> isspace (last ?a)"
    using header_text_ends [of pd] assms by simp_all
  have "strip (?a @ ([CHR 0x0A] @ str_join [CHR 0x0A] ([] # rest)))
       = ?a @ rstrip ([CHR 0x0A] @ str_join [CHR 0x0A] ([] # rest))"
    using a by (rule strip_append_nonspace)
  with j a(1) show ?thesis by (simp add: final_mml_content_def)
qed

lemma map_filter_ndp_nonempty:
  "set ks \<subseteq> set VALID_MUS_TRACK_CHARS \<Longrightarrow>
     \<forall>x\<in>set (List.map_filter ndp_track_num ks). x \<noteq> []"
proof (induction ks)
  case Nil
  then show ?case by simp
next
  case (Cons k ks)
  then obtain d where d: "ndp_track_num k = Some [d]"
    using ndp_track_num_valid [of k] by auto
  from Cons have "\<forall>x\<in>set (List.map_filter ndp_track_num ks). x \<noteq> []" by simp
  with d show ?case by simp
qed

lemma tempo_command_parts_cases:
  assumes "fst ` set (tracks pd) \<subseteq> set VALID_MUS_TRACK_CHARS"
  shows "tempo_command_parts pd =
     (case mus_tempo pd of
        None \<Rightarrow> []
      | Some t \<Rightarrow>
          if 1 \<le> t \<and> t \<le> 255 \<and> tracks pd \<noteq> []
          then [concat (sort_key int_of_digits (active_ndp_tracks_for_tempo pd))
                  @ '' T'' @ str_int (py_round ((60 * 4000000) / of_int (40 * 1024 * (256 - t))))]
          else [])"
  using active_ndp_tracks_nonempty [OF assms]
  by (auto simp: tempo_command_parts_def mus_tempo_to_bpm_def split: option.splits)

text \<open>
  C6.  For every input text the conversion returns, and its output is the output for
  the same parse result without a tempo, with one line put in directly behind the three
  header lines exactly when the parsed tempo lies in 1 to 255 and some track has data:
  the line consists of the channel digits of the tracks, \<open>T\<close> and the BPM.  In that
  case the BPM computation returns a value, so the division by zero is not reached.
  In every other case the output is the one without a tempo.
\<close>

theorem convert_mml_file_tempo_line:
  "\<exists>body. emit_mml_document ((parse_mus_file content)\<lparr>mus_tempo := None\<rparr>)
       = Some (str_join [CHR 0x0A] (header_parts (parse_mus_file content)) @ body)
     \<and> (case mus_tempo (parse_mus_file content) of
          None \<Rightarrow>
            convert_mml_file content
              = Some (str_join [CHR 0x0A] (header_parts (parse_mus_file content)) @ body)
        | Some t \<Rightarrow>
            if 1 \<le> t \<and> t \<le> 255 \<and> tracks (parse_mus_file content) \<noteq> []
            then \<exists>bpm channels. mus_tempo_to_bpm t = Inr bpm
                   \<and> channels \<noteq> [] \<and> set channels \<subseteq> set ''12345678''
                   \<and> convert_mml_file content
                       = Some (str_join [CHR 0x0A] (header_parts (parse_mus_file content))
                               @ [CHR 0x0A] @ channels @ '' T'' @ str_int bpm @ body)
            else convert_mml_file content
                   = Some (str_join [CHR 0x0A] (header_parts (parse_mus_file content)) @ body))"
proof -
  let ?pd = "parse_mus_file content"
  let ?h = "str_join [CHR 0x0A] (header_parts ?pd)"
  have keys: "fst ` set (tracks ?pd) \<subseteq> set VALID_MUS_TRACK_CHARS" by (rule parse_mus_file_keys)
  from mml_output_parts_shape [OF keys] obtain rest where
    r0: "mml_output_parts (?pd\<lparr>mus_tempo := None\<rparr>) = Some (header_parts ?pd @ [] # rest)" and
    r1: "mml_output_parts ?pd = Some (header_parts ?pd @ tempo_command_parts ?pd @ [] # rest)"
    by blast
  let ?body = "rstrip ([CHR 0x0A] @ str_join [CHR 0x0A] ([] # rest)) @ [CHR 0x0A]"
  have e0: "emit_mml_document (?pd\<lparr>mus_tempo := None\<rparr>) = Some (?h @ ?body)"
    using r0 by (simp add: emit_mml_document_def final_mml_content_without)
  have without: "convert_mml_file content = Some (?h @ ?body)" if "tempo_command_parts ?pd = []"
    using r1 that by (simp add: convert_mml_file_def emit_mml_document_def final_mml_content_without)
  have c: "case mus_tempo ?pd of
          None \<Rightarrow> convert_mml_file content = Some (?h @ ?body)
        | Some t \<Rightarrow>
            if 1 \<le> t \<and> t \<le> 255 \<and> tracks ?pd \<noteq> []
            then \<exists>bpm channels. mus_tempo_to_bpm t = Inr bpm
                   \<and> channels \<noteq> [] \<and> set channels \<subseteq> set ''12345678''
                   \<and> convert_mml_file content
                       = Some (?h @ [CHR 0x0A] @ channels @ '' T'' @ str_int bpm @ ?body)
            else convert_mml_file content = Some (?h @ ?body)"
  proof (cases "mus_tempo ?pd")
    case None
    then have "tempo_command_parts ?pd = []" by (simp add: tempo_command_parts_def)
    with None without show ?thesis by simp
  next
    case (Some t)
    show ?thesis
    proof (cases "1 \<le> t \<and> t \<le> 255 \<and> tracks ?pd \<noteq> []")
      case False
      with Some have "tempo_command_parts ?pd = []"
        by (simp add: tempo_command_parts_cases [OF keys])
      with Some False without show ?thesis by simp
    next
      case True
      let ?bpm = "py_round ((60 * 4000000) / of_int (40 * 1024 * (256 - t)))"
      let ?ch = "concat (sort_key int_of_digits (active_ndp_tracks_for_tempo ?pd))"
      from True have b: "mus_tempo_to_bpm t = Inr ?bpm" by (simp add: mus_tempo_to_bpm_def)
      from True Some have tp: "tempo_command_parts ?pd = [?ch @ '' T'' @ str_int ?bpm]"
        by (simp add: tempo_command_parts_cases [OF keys])
      from active_ndp_tracks_nonempty [OF keys] True
      obtain x xs where "active_ndp_tracks_for_tempo ?pd = x # xs"
        by (cases "active_ndp_tracks_for_tempo ?pd") auto
      then have xa: "x \<in> set (active_ndp_tracks_for_tempo ?pd)" by simp
      then have x: "x \<in> set (sort_key int_of_digits (active_ndp_tracks_for_tempo ?pd))"
        by simp
      from xa have "x \<in> set (List.map_filter ndp_track_num (sort (map fst (tracks ?pd))))"
        by (simp only: active_ndp_tracks_for_tempo_def)
      moreover from keys have "set (sort (map fst (tracks ?pd))) \<subseteq> set VALID_MUS_TRACK_CHARS"
        by simp
      ultimately have "x \<noteq> []" using map_filter_ndp_nonempty by blast
      with x have ch1: "?ch \<noteq> []" by auto
      have ch2: "set ?ch \<subseteq> set ''12345678''" by (rule active_ndp_tracks_digits [OF keys])
      have l: "?ch @ '' T'' @ str_int ?bpm \<noteq> []" "\<not> isspace (last (?ch @ '' T'' @ str_int ?bpm))"
        using str_int_last [of ?bpm] by simp_all
      have "convert_mml_file content
              = Some (?h @ [CHR 0x0A] @ (?ch @ '' T'' @ str_int ?bpm) @ ?body)"
        using r1 tp final_mml_content_with [OF l, of ?pd rest]
        by (simp add: convert_mml_file_def emit_mml_document_def)
      with b ch1 ch2 have "\<exists>bpm channels. mus_tempo_to_bpm t = Inr bpm
                   \<and> channels \<noteq> [] \<and> set channels \<subseteq> set ''12345678''
                   \<and> convert_mml_file content
                       = Some (?h @ [CHR 0x0A] @ channels @ '' T'' @ str_int bpm @ ?body)"
        by (intro exI [of _ ?bpm] exI [of _ ?ch]) simp
      with Some True show ?thesis by simp
    qed
  qed
  from e0 c show ?thesis by blast
qed

theorem convert_mml_file_tempo_line_witness:
  "mus_tempo (parse_mus_file ''A @t220 c4\<newline>B d4'') = Some 220
   \<and> tracks (parse_mus_file ''A @t220 c4\<newline>B d4'') = [(CHR ''A'', ''c4''), (CHR ''B'', ''d4'')]
   \<and> convert_mml_file ''A @t220 c4\<newline>B d4''
        = Some (str_join [CHR 0x0A] (header_parts (parse_mus_file ''A @t220 c4\<newline>B d4''))
                @ ''\<newline>12 T163\<newline>\<newline>// '' @ track_word @ '' A ('' @ channel_word
                @ '' 1)\<newline>1 c4\<newline>\<newline>// '' @ track_word @ '' B ('' @ channel_word
                @ '' 2)\<newline>2 d4\<newline>'')
   \<and> (\<exists>body bpm channels.
          emit_mml_document ((parse_mus_file ''A @t220 c4\<newline>B d4'')\<lparr>mus_tempo := None\<rparr>)
            = Some (str_join [CHR 0x0A] (header_parts (parse_mus_file ''A @t220 c4\<newline>B d4'')) @ body)
        \<and> mus_tempo_to_bpm 220 = Inr bpm \<and> bpm = 163 \<and> channels \<noteq> []
        \<and> convert_mml_file ''A @t220 c4\<newline>B d4''
            = Some (str_join [CHR 0x0A] (header_parts (parse_mus_file ''A @t220 c4\<newline>B d4''))
                    @ [CHR 0x0A] @ channels @ '' T'' @ str_int bpm @ body))
   \<and> mus_tempo (parse_mus_file ''A c4'') = None
   \<and> (\<exists>body. emit_mml_document ((parse_mus_file ''A c4'')\<lparr>mus_tempo := None\<rparr>)
          = Some (str_join [CHR 0x0A] (header_parts (parse_mus_file ''A c4'')) @ body)
        \<and> convert_mml_file ''A c4''
          = Some (str_join [CHR 0x0A] (header_parts (parse_mus_file ''A c4'')) @ body))
   \<and> mus_tempo (parse_mus_file ''A @t256 c4'') = Some 256
   \<and> (\<exists>body. emit_mml_document ((parse_mus_file ''A @t256 c4'')\<lparr>mus_tempo := None\<rparr>)
          = Some (str_join [CHR 0x0A] (header_parts (parse_mus_file ''A @t256 c4'')) @ body)
        \<and> convert_mml_file ''A @t256 c4''
          = Some (str_join [CHR 0x0A] (header_parts (parse_mus_file ''A @t256 c4'')) @ body))"
proof -
  let ?c = "''A @t220 c4\<newline>B d4''"
  let ?h = "str_join [CHR 0x0A] (header_parts (parse_mus_file ?c))"
  have t: "mus_tempo (parse_mus_file ?c) = Some 220" by code_simp
  have k: "tracks (parse_mus_file ?c) = [(CHR ''A'', ''c4''), (CHR ''B'', ''d4'')]" by code_simp
  have n: "mus_tempo (parse_mus_file ''A c4'') = None" by code_simp
  have v: "convert_mml_file ?c = Some (?h @ ''\<newline>12 T163\<newline>\<newline>// '' @ track_word @ '' A (''
      @ channel_word @ '' 1)\<newline>1 c4\<newline>\<newline>// '' @ track_word @ '' B ('' @ channel_word
      @ '' 2)\<newline>2 d4\<newline>'')"
    by code_simp
  have q: "mus_tempo_to_bpm 220 = Inr 163" by (simp add: mus_tempo_to_bpm_def py_round_def)
  from convert_mml_file_tempo_line [of ?c] t k q
  have a: "\<exists>body bpm channels.
          emit_mml_document ((parse_mus_file ?c)\<lparr>mus_tempo := None\<rparr>) = Some (?h @ body)
        \<and> mus_tempo_to_bpm 220 = Inr bpm \<and> bpm = 163 \<and> channels \<noteq> []
        \<and> convert_mml_file ?c = Some (?h @ [CHR 0x0A] @ channels @ '' T'' @ str_int bpm @ body)"
    by auto
  from convert_mml_file_tempo_line [of "''A c4''"] n
  have b: "\<exists>body. emit_mml_document ((parse_mus_file ''A c4'')\<lparr>mus_tempo := None\<rparr>)
          = Some (str_join [CHR 0x0A] (header_parts (parse_mus_file ''A c4'')) @ body)
        \<and> convert_mml_file ''A c4''
          = Some (str_join [CHR 0x0A] (header_parts (parse_mus_file ''A c4'')) @ body)"
    by auto
  have z: "mus_tempo (parse_mus_file ''A @t256 c4'') = Some 256" by code_simp
  from convert_mml_file_tempo_line [of "''A @t256 c4''"] z
  have c: "\<exists>body. emit_mml_document ((parse_mus_file ''A @t256 c4'')\<lparr>mus_tempo := None\<rparr>)
          = Some (str_join [CHR 0x0A] (header_parts (parse_mus_file ''A @t256 c4'')) @ body)
        \<and> convert_mml_file ''A @t256 c4''
          = Some (str_join [CHR 0x0A] (header_parts (parse_mus_file ''A @t256 c4'')) @ body)"
    by auto
  from t k v a n b z c show ?thesis by (intro conjI)
qed

text \<open>
  The output always ends with a single newline: what stands before it is empty or ends
  with a character that is not whitespace.
\<close>

lemma strip_last_nonspace: "strip s \<noteq> [] \<Longrightarrow> \<not> isspace (last (strip s))"
proof -
  assume a: "strip s \<noteq> []"
  then have "dropWhile isspace (rev (lstrip s)) \<noteq> []" by (simp add: strip_def rstrip_def)
  then have "\<not> isspace (hd (dropWhile isspace (rev (lstrip s))))" by (rule hd_dropWhile)
  with a show ?thesis by (simp add: strip_def rstrip_def last_rev)
qed

lemma final_mml_content_trailing_newline:
  "\<exists>body. final_mml_content parts = body @ [CHR 0x0A] \<and> (body = [] \<or> \<not> isspace (last body))"
  using strip_last_nonspace [of "str_join [CHR 0x0A] parts"]
  by (auto simp: final_mml_content_def)

lemma convert_mml_file_trailing_newline:
  "\<exists>body. convert_mml_file content = Some (body @ [CHR 0x0A])
     \<and> (body = [] \<or> \<not> isspace (last body))"
proof -
  from mml_output_parts_shape [OF parse_mus_file_keys, of content]
  obtain parts where "mml_output_parts (parse_mus_file content) = Some parts" by blast
  then have "convert_mml_file content = Some (final_mml_content parts)"
    by (simp add: convert_mml_file_def emit_mml_document_def)
  with final_mml_content_trailing_newline [of parts] show ?thesis by auto
qed

text \<open>
  C7.  The empty document is to come out with the title \<open>Untitled\<close> and the composer
  \<open>Unknown\<close>, the defaults the source names in its two \<open>get\<close> calls.  The parser puts
  the keys \<open>title\<close> and \<open>composer\<close> into its result with the empty string, so the
  defaults are never taken: the header of the empty document carries two empty names.
\<close>

theorem convert_mml_file_empty_document:
  "convert_mml_file [] =
     Some (''#TITLE '' @ [CHR 0x22, CHR 0x22] @ ''\<newline>#COMPOSER '' @ [CHR 0x22, CHR 0x22]
           @ ''\<newline>#TIMEBASE 48\<newline>'')
   \<and> convert_mml_file [] \<noteq>
     Some (''#TITLE '' @ [CHR 0x22] @ ''Untitled'' @ [CHR 0x22] @ ''\<newline>#COMPOSER '' @ [CHR 0x22]
           @ ''Unknown'' @ [CHR 0x22] @ ''\<newline>#TIMEBASE 48\<newline>'')
   \<and> title (parse_mus_file []) = []
   \<and> composer (parse_mus_file []) = []"
  by code_simp

section \<open>The first tempo of the document\<close>

text \<open>A tempo that is recorded is kept to the end of the parse.\<close>

lemma parse_track_line_tempo_kept:
  "mus_tempo (result st) = Some t \<Longrightarrow> mus_tempo (result (parse_track_line st c d)) = Some t"
  by (simp add: parse_track_line_def save_track_data_fields split: prod.splits)

lemma parse_line_tempo_kept:
  "mus_tempo (result st) = Some t \<Longrightarrow> mus_tempo (result (parse_line st l)) = Some t"
  by (simp add: parse_line_def parse_track_line_tempo_kept store_voice_definition_fields)

lemma foldl_parse_line_tempo_kept:
  "mus_tempo (result st) = Some t \<Longrightarrow> mus_tempo (result (foldl parse_line st ls)) = Some t"
  by (induction ls arbitrary: st) (simp_all add: parse_line_tempo_kept)

text \<open>
  C1.  The tempo of the document is to be the one of the first track line whose
  preprocessing yields a tempo.  The parser stores the tempo only on a line that opens
  a segment, and it finds the directive on a line of the open track by the substring
  \<open>@t\<close>, while the preprocessor also accepts \<open>@ t220\<close>.  On a second line of track
  \<open>A\<close> the preprocessor extracts 220 and deletes the directive from the notes, the
  parser drops the value, and the tempo of a later line is recorded in its place.
\<close>

theorem parse_mus_file_tempo_on_continuation_line:
  "splitlines ''A c4\<newline>A @ t220 c4\<newline>B @t100 d4'' = [''A c4'', ''A @ t220 c4'', ''B @t100 d4'']
   \<and> preprocess_and_extract_data_from_track_line ''c4'' (CHR ''A'') [] = (''c4'', [], None)
   \<and> preprocess_and_extract_data_from_track_line ''@ t220 c4'' (CHR ''A'') [] = (''c4'', [], Some 220)
   \<and> mus_tempo (parse_mus_file ''A c4\<newline>A @ t220 c4\<newline>B @t100 d4'') = Some 100
   \<and> mus_tempo (parse_mus_file ''A c4\<newline>A @ t220 c4'') = None
   \<and> tracks (parse_mus_file ''A c4\<newline>A @ t220 c4'') = [(CHR ''A'', ''c4 c4'')]"
  by code_simp

end
